theory Spec2Isabelle
  imports Main
begin

section \<open>Pipeline IR\<close>

text \<open>
  The compiled pipeline IR of \<^verbatim>\<open>pipeline_pb2\<close>, restricted to the fields the two
  source files read or write.  A protobuf message is a record, a \<^verbatim>\<open>oneof\<close> is a
  datatype with one constructor per alternative and one for "not set".
\<close>

datatype error =
    ValueError string
  | LookupError string
  | KeyError string
  | InvalidDAGError string

datatype ExecutionMode = EXECUTION_MODE_UNSPECIFIED | SYNC | ASYNC

text \<open>\<^verbatim>\<open>NodeExecutionOptions.ChiefSettings\<close>: the oneof \<^verbatim>\<open>artifact_reuse_strategy\<close>.\<close>

datatype ChiefSettings =
    StrategyNotSet
  | LatestPipelineRunStrategy
  | BasePipelineRunStrategy string

text \<open>
  \<^verbatim>\<open>NodeExecutionOptions.partial_run_option\<close>: \<^verbatim>\<open>run\<close> holds the optional
  \<^verbatim>\<open>chief_settings\<close>, \<^verbatim>\<open>skip\<close> holds \<^verbatim>\<open>child_in_partial_run\<close>.
\<close>

datatype PartialRunOption =
    PartialRunNotSet
  | Run "ChiefSettings option"
  | Skip bool

record Channel =
  producer_node_query_id :: string
  output_key :: string

record PipelineNode =
  node_info_id :: string
  node_info_type :: string
  inputs :: "(string \<times> Channel list) list"
  upstream_nodes :: "string list"
  downstream_nodes :: "string list"
  enable_cache :: bool
  partial_run_option :: PartialRunOption

text \<open>
  \<^verbatim>\<open>Pipeline.PipelineOrNode\<close>: the oneof \<^verbatim>\<open>node\<close>.  The contents of a sub-pipeline are
  never inspected by the code, so only its id is kept.
\<close>

datatype PipelineOrNode = pipeline_node PipelineNode | sub_pipeline string

record Pipeline =
  pipeline_info_id :: string
  nodes :: "PipelineOrNode list"
  execution_mode :: ExecutionMode
  pipeline_run_id :: "string option"
  executor_specs :: "(string \<times> string) list option"

definition default_PipelineNode :: PipelineNode where
  "default_PipelineNode =
     \<lparr>node_info_id = [], node_info_type = [], inputs = [], upstream_nodes = [],
      downstream_nodes = [], enable_cache = False, partial_run_option = PartialRunNotSet\<rparr>"

text \<open>
  Reading \<^verbatim>\<open>x.pipeline_node\<close> on an entry whose oneof holds something else yields the
  default message, as protobuf does.
\<close>

fun get_pipeline_node :: "PipelineOrNode \<Rightarrow> PipelineNode" where
  "get_pipeline_node (pipeline_node n) = n"
| "get_pipeline_node (sub_pipeline _) = default_PipelineNode"

fun HasField_sub_pipeline :: "PipelineOrNode \<Rightarrow> bool" where
  "HasField_sub_pipeline (pipeline_node _) = False"
| "HasField_sub_pipeline (sub_pipeline _) = True"

definition node_id_of :: "PipelineOrNode \<Rightarrow> string" where
  "node_id_of pn = node_info_id (get_pipeline_node pn)"

section \<open>Partial-run marker (\<^verbatim>\<open>partial_run_utils.py\<close>)\<close>

datatype Direction = UPSTREAM | DOWNSTREAM

definition ensure_sync_pipeline :: "Pipeline \<Rightarrow> error + unit" where
  "ensure_sync_pipeline pipeline =
     (if execution_mode pipeline \<noteq> SYNC
      then Inl (ValueError ''Pipeline filtering is only supported for SYNC pipelines.'')
      else Inr ())"

definition ensure_no_subpipeline_nodes :: "Pipeline \<Rightarrow> error + unit" where
  "ensure_no_subpipeline_nodes pipeline =
     (case find HasField_sub_pipeline (nodes pipeline) of
        Some _ \<Rightarrow> Inl (ValueError
          ''Pipeline filtering not supported for pipelines with sub-pipelines.'')
      | None \<Rightarrow> Inr ())"

text \<open>
  The two loops of \<^verbatim>\<open>_ensure_topologically_sorted\<close>.  \<open>visited\<close> is the set the loop
  carries; the first reference that is not in it raises.
\<close>

fun upstream_check :: "PipelineOrNode list \<Rightarrow> string set \<Rightarrow> error + unit" where
  "upstream_check [] visited = Inr ()"
| "upstream_check (pn # rest) visited =
     (case find (\<lambda>u. u \<notin> visited) (upstream_nodes (get_pipeline_node pn)) of
        Some u \<Rightarrow> Inl (ValueError ''Input pipeline is not topologically sorted.'')
      | None \<Rightarrow> upstream_check rest (insert (node_id_of pn) visited))"

fun downstream_check :: "PipelineOrNode list \<Rightarrow> string set \<Rightarrow> error + unit" where
  "downstream_check [] visited = Inr ()"
| "downstream_check (pn # rest) visited =
     (case find (\<lambda>d. d \<notin> visited) (downstream_nodes (get_pipeline_node pn)) of
        Some d \<Rightarrow> Inl (ValueError ''Input pipeline is not topologically sorted.'')
      | None \<Rightarrow> downstream_check rest (insert (node_id_of pn) visited))"

definition ensure_topologically_sorted :: "Pipeline \<Rightarrow> error + unit" where
  "ensure_topologically_sorted pipeline =
     (case upstream_check (nodes pipeline) {} of
        Inl e \<Rightarrow> Inl e
      | Inr _ \<Rightarrow> downstream_check (rev (nodes pipeline)) {})"

text \<open>
  A \<^verbatim>\<open>collections.OrderedDict\<close> is an association list with distinct keys in
  insertion order; \<^verbatim>\<open>d[k] = v\<close> overwrites in place or appends.
\<close>

type_synonym node_map = "(string \<times> PipelineNode) list"

fun ordered_dict_set :: "'k \<Rightarrow> 'v \<Rightarrow> ('k \<times> 'v) list \<Rightarrow> ('k \<times> 'v) list" where
  "ordered_dict_set k v [] = [(k, v)]"
| "ordered_dict_set k v ((k', v') # kvs) =
     (if k' = k then (k, v) # kvs else (k', v') # ordered_dict_set k v kvs)"

definition make_ordered_node_map :: "Pipeline \<Rightarrow> node_map" where
  "make_ordered_node_map pipeline =
     foldl (\<lambda>result pn. ordered_dict_set (node_id_of pn) (get_pipeline_node pn) result)
       [] (nodes pipeline)"

definition neighbours :: "Direction \<Rightarrow> PipelineNode \<Rightarrow> string list" where
  "neighbours direction node =
     (case direction of UPSTREAM \<Rightarrow> upstream_nodes node | DOWNSTREAM \<Rightarrow> downstream_nodes node)"

text \<open>
  The inner \<^verbatim>\<open>while stack\<close> loop of \<^verbatim>\<open>_traverse\<close>.  The Python list is used as a stack
  whose top is its last element; here the top is the head, so \<^verbatim>\<open>stack.extend(xs)\<close> is
  \<open>rev xs @ stack\<close>.  \<^verbatim>\<open>node_map[current_node_id]\<close> raises \<^verbatim>\<open>KeyError\<close> on a missing id.
\<close>

function traverse_stack ::
  "node_map \<Rightarrow> Direction \<Rightarrow> string list \<Rightarrow> string set \<Rightarrow> error + string set" where
  "traverse_stack nm direction [] result = Inr result"
| "traverse_stack nm direction (current_node_id # stack) result =
     (if current_node_id \<in> result then traverse_stack nm direction stack result
      else (case map_of nm current_node_id of
              None \<Rightarrow> Inl (KeyError current_node_id)
            | Some node \<Rightarrow>
                traverse_stack nm direction (rev (neighbours direction node) @ stack)
                  (insert current_node_id result)))"
  by pat_completeness auto
termination
proof (relation "(\<lambda>(nm, d, stack, result). card (fst ` set nm - result)) <*mlex*>
                 measure (\<lambda>(nm, d, stack, result). length stack)", goal_cases)
  case 1
  show ?case by (simp add: wf_mlex)
next
  case (2 nm direction current_node_id stack result)
  show ?case by (rule mlex_leq) simp_all
next
  case (3 nm direction current_node_id stack result node)
  from 3(2) have "current_node_id \<in> fst ` set nm"
    by (metis map_of_SomeD fst_conv image_eqI)
  with 3(1) have "card (fst ` set nm - insert current_node_id result)
                  < card (fst ` set nm - result)"
    by (intro psubset_card_mono) auto
  then show ?case by (intro mlex_less) simp
qed

text \<open>The outer \<^verbatim>\<open>for start_node in start_nodes\<close> loop of \<^verbatim>\<open>_traverse\<close>.\<close>

fun traverse_from ::
  "node_map \<Rightarrow> Direction \<Rightarrow> string list \<Rightarrow> string set \<Rightarrow> error + string set" where
  "traverse_from nm direction [] result = Inr result"
| "traverse_from nm direction (start_node # start_nodes) result =
     (case traverse_stack nm direction [start_node] result of
        Inl e \<Rightarrow> Inl e
      | Inr result' \<Rightarrow> traverse_from nm direction start_nodes result')"

definition traverse :: "node_map \<Rightarrow> Direction \<Rightarrow> string list \<Rightarrow> error + string set" where
  "traverse nm direction start_nodes = traverse_from nm direction start_nodes {}"

definition filter_node_map :: "node_map \<Rightarrow> string list \<Rightarrow> string list \<Rightarrow> error + node_map" where
  "filter_node_map nm from_node_ids to_node_ids =
     (case traverse nm UPSTREAM to_node_ids of
        Inl e \<Rightarrow> Inl e
      | Inr ancestors_of_to_nodes \<Rightarrow>
          (case traverse nm DOWNSTREAM from_node_ids of
             Inl e \<Rightarrow> Inl e
           | Inr descendents_of_from_nodes \<Rightarrow>
               Inr (filter (\<lambda>(node_id, node).
                      node_id \<in> ancestors_of_to_nodes \<inter> descendents_of_from_nodes) nm)))"

definition remove_dangling_downstream_nodes :: "PipelineNode \<Rightarrow> string set \<Rightarrow> PipelineNode" where
  "remove_dangling_downstream_nodes node node_ids_to_keep =
     (let downstream_nodes_to_keep =
            filter (\<lambda>d. d \<in> node_ids_to_keep) (downstream_nodes node)
      in if length downstream_nodes_to_keep = length (downstream_nodes node) then node
         else node\<lparr>downstream_nodes := downstream_nodes_to_keep\<rparr>)"

definition handle_missing_inputs ::
  "PipelineNode \<Rightarrow> string set \<Rightarrow> PipelineNode \<times> string set" where
  "handle_missing_inputs node node_ids_to_keep =
     (let upstream_nodes_removed =
            set (filter (\<lambda>u. u \<notin> node_ids_to_keep) (upstream_nodes node));
          upstream_nodes_to_keep =
            filter (\<lambda>u. u \<in> node_ids_to_keep) (upstream_nodes node)
      in if upstream_nodes_removed = {} then (node, {})
         else
           (let excluded_direct_deps =
                  set (filter (\<lambda>i. i \<in> upstream_nodes_removed)
                         (map producer_node_query_id (concat (map snd (inputs node)))))
            in (node\<lparr>upstream_nodes := upstream_nodes_to_keep\<rparr>, excluded_direct_deps)))"

text \<open>
  The loop of \<^verbatim>\<open>_fix_nodes\<close> over the keys of the filtered map; \<open>keep\<close> is
  \<^verbatim>\<open>node_map.keys()\<close>, the accumulators are \<^verbatim>\<open>fixed_nodes\<close> and
  \<^verbatim>\<open>merged_excluded_direct_deps\<close>.
\<close>

fun fix_nodes_loop ::
  "node_map \<Rightarrow> string set \<Rightarrow> node_map \<times> string set \<Rightarrow> node_map \<times> string set" where
  "fix_nodes_loop [] keep acc = acc"
| "fix_nodes_loop ((node_id, node) # rest) keep (fixed_nodes, merged_excluded_direct_deps) =
     (let new_node = remove_dangling_downstream_nodes node keep;
          (new_node', excluded_direct_deps) = handle_missing_inputs new_node keep
      in fix_nodes_loop rest keep
           (ordered_dict_set node_id new_node' fixed_nodes,
            merged_excluded_direct_deps \<union> excluded_direct_deps))"

definition fix_nodes :: "node_map \<Rightarrow> node_map \<times> string set" where
  "fix_nodes nm = fix_nodes_loop nm (set (map fst nm)) ([], {})"

text \<open>
  What one iteration of that loop stores for a node and what it adds to the merged set.
\<close>

definition fixed_node :: "string set \<Rightarrow> PipelineNode \<Rightarrow> PipelineNode" where
  "fixed_node keep n = fst (handle_missing_inputs (remove_dangling_downstream_nodes n keep) keep)"

definition excluded_of :: "string set \<Rightarrow> PipelineNode \<Rightarrow> string set" where
  "excluded_of keep n = snd (handle_missing_inputs (remove_dangling_downstream_nodes n keep) keep)"

text \<open>
  The three writes of \<^verbatim>\<open>_mark_nodes_and_nominate_chief\<close> on the oneof.
  \<^verbatim>\<open>run.SetInParent()\<close> only marks \<^verbatim>\<open>run\<close> as present: a \<^verbatim>\<open>run\<close> that is already set keeps
  its fields, any other alternative is replaced by an empty \<^verbatim>\<open>run\<close>.
  \<^verbatim>\<open>run.chief_settings.CopyFrom(cs)\<close> selects \<^verbatim>\<open>run\<close> and overwrites its chief settings;
  assigning \<^verbatim>\<open>skip.child_in_partial_run\<close> selects \<^verbatim>\<open>skip\<close>.
\<close>

fun run_SetInParent :: "PartialRunOption \<Rightarrow> PartialRunOption" where
  "run_SetInParent (Run cs) = Run cs"
| "run_SetInParent _ = Run None"

definition run_chief_settings_CopyFrom :: "ChiefSettings \<Rightarrow> PartialRunOption \<Rightarrow> PartialRunOption" where
  "run_chief_settings_CopyFrom chief_settings opt = Run (Some chief_settings)"

definition set_skip_child_in_partial_run :: "bool \<Rightarrow> PartialRunOption \<Rightarrow> PartialRunOption" where
  "set_skip_child_in_partial_run b opt = Skip b"

text \<open>
  The loop of \<^verbatim>\<open>_mark_nodes_and_nominate_chief\<close>, with the flag
  \<^verbatim>\<open>chief_already_nominated\<close> as an argument.  Writing through \<^verbatim>\<open>node.pipeline_node\<close>
  selects that alternative of the entry.
\<close>

fun mark_nodes_loop ::
  "PipelineOrNode list \<Rightarrow> string set \<Rightarrow> string set \<Rightarrow> ChiefSettings \<Rightarrow> bool
     \<Rightarrow> PipelineOrNode list" where
  "mark_nodes_loop [] node_ids_to_include excluded_direct_dependencies chief_settings
     chief_already_nominated = []"
| "mark_nodes_loop (pn # rest) node_ids_to_include excluded_direct_dependencies chief_settings
     chief_already_nominated =
     (let node = get_pipeline_node pn; node_id = node_info_id node in
      if node_id \<in> node_ids_to_include then
        (if chief_already_nominated then
           pipeline_node (node\<lparr>partial_run_option :=
               run_SetInParent (partial_run_option node)\<rparr>)
             # mark_nodes_loop rest node_ids_to_include excluded_direct_dependencies
                 chief_settings True
         else
           pipeline_node (node\<lparr>partial_run_option :=
               run_chief_settings_CopyFrom chief_settings (partial_run_option node)\<rparr>)
             # mark_nodes_loop rest node_ids_to_include excluded_direct_dependencies
                 chief_settings True)
      else
        pipeline_node (node\<lparr>partial_run_option :=
            set_skip_child_in_partial_run (node_id \<in> excluded_direct_dependencies)
              (partial_run_option node)\<rparr>)
          # mark_nodes_loop rest node_ids_to_include excluded_direct_dependencies
              chief_settings chief_already_nominated)"

definition mark_nodes_and_nominate_chief ::
  "Pipeline \<Rightarrow> string set \<Rightarrow> string set \<Rightarrow> ChiefSettings \<Rightarrow> Pipeline" where
  "mark_nodes_and_nominate_chief pipeline node_ids_to_include excluded_direct_dependencies
     chief_settings =
     pipeline\<lparr>nodes := mark_nodes_loop (nodes pipeline) node_ids_to_include
                          excluded_direct_dependencies chief_settings False\<rparr>"

text \<open>
  \<^verbatim>\<open>mark_pipeline\<close> modifies the pipeline in place; the model returns the modified
  pipeline, or the error raised.
\<close>

definition mark_pipeline ::
  "Pipeline \<Rightarrow> (string \<Rightarrow> bool) \<Rightarrow> (string \<Rightarrow> bool) \<Rightarrow> ChiefSettings \<Rightarrow> error + Pipeline" where
  "mark_pipeline pipeline from_nodes to_nodes chief_settings =
     (case ensure_sync_pipeline pipeline of Inl e \<Rightarrow> Inl e | Inr _ \<Rightarrow>
     (case ensure_no_subpipeline_nodes pipeline of Inl e \<Rightarrow> Inl e | Inr _ \<Rightarrow>
     (case ensure_topologically_sorted pipeline of Inl e \<Rightarrow> Inl e | Inr _ \<Rightarrow>
       (let nm = make_ordered_node_map pipeline;
            from_node_ids = filter from_nodes (map fst nm);
            to_node_ids = filter to_nodes (map fst nm)
        in (case filter_node_map nm from_node_ids to_node_ids of
              Inl e \<Rightarrow> Inl e
            | Inr nm' \<Rightarrow>
                (let (nm'', excluded_direct_dependencies) = fix_nodes nm'
                 in Inr (mark_nodes_and_nominate_chief pipeline (set (map fst nm''))
                           excluded_direct_dependencies chief_settings)))))))"

definition default_chief_settings :: ChiefSettings where
  "default_chief_settings = LatestPipelineRunStrategy"


text \<open>The presence tests the code makes on the oneof and on \<^verbatim>\<open>run.chief_settings\<close>.\<close>

fun HasField_run :: "PartialRunOption \<Rightarrow> bool" where
  "HasField_run (Run _) = True"
| "HasField_run _ = False"

fun HasField_skip :: "PartialRunOption \<Rightarrow> bool" where
  "HasField_skip (Skip _) = True"
| "HasField_skip _ = False"

fun HasField_chief_settings :: "PartialRunOption \<Rightarrow> bool" where
  "HasField_chief_settings (Run (Some _)) = True"
| "HasField_chief_settings _ = False"

subsection \<open>Reachability, as the specification words it\<close>

text \<open>
  The specification describes the kept set as the nodes reachable downstream from the
  \<open>from\<close> nodes that are also reachable upstream from the \<open>to\<close> nodes.  These
  definitions follow those words (reflexive-transitive closure of the pipeline's
  adjacency lists); the traversal of the code is compared with them below.
\<close>

definition node_ids :: "Pipeline \<Rightarrow> string set" where
  "node_ids p = set (map node_id_of (nodes p))"

definition edges :: "Direction \<Rightarrow> Pipeline \<Rightarrow> (string \<times> string) set" where
  "edges direction p =
     {(a, b). \<exists>pn \<in> set (nodes p). node_id_of pn = a \<and>
                b \<in> set (neighbours direction (get_pipeline_node pn))}"

definition reachable :: "Direction \<Rightarrow> Pipeline \<Rightarrow> string set \<Rightarrow> string set" where
  "reachable direction p S = (edges direction p)\<^sup>* `` S"

definition map_edges :: "Direction \<Rightarrow> node_map \<Rightarrow> (string \<times> string) set" where
  "map_edges direction nm =
     {(a, b). \<exists>n. map_of nm a = Some n \<and> b \<in> set (neighbours direction n)}"


section \<open>Metadata store and task values\<close>

text \<open>
  The values of \<^verbatim>\<open>metadata_store_pb2\<close>, \<^verbatim>\<open>task_lib\<close>, \<^verbatim>\<open>pstate\<close>, \<^verbatim>\<open>service_jobs\<close> and
  \<^verbatim>\<open>status_lib\<close> that the two files handle.  A context type id is identified with the
  type's name.
\<close>

record Context =
  context_id :: nat
  context_type :: string
  context_name :: string
  create_time_since_epoch :: nat

record Artifact =
  artifact_id :: nat
  artifact_uri :: string

type_synonym ArtifactDict = "(string \<times> Artifact list) list"

type_synonym Properties = "(string \<times> string) list"

text \<open>
  Modelled from the spec: the declaration of \<^verbatim>\<open>last_known_state\<close> is not under src/
  (\<^verbatim>\<open>metadata_store_pb2\<close>); the specification lists the states active, successful,
  failed, cancelled and cached.
\<close>

datatype ExecutionState =
    Execution_ACTIVE
  | Execution_SUCCESSFUL
  | Execution_FAILED
  | Execution_CANCELLED
  | Execution_CACHED

record Execution =
  execution_id :: nat
  execution_type_id :: string
  last_known_state :: ExecutionState
  custom_properties :: Properties

text \<open>
  Modelled from the spec: \<^verbatim>\<open>execution_lib.is_execution_successful\<close> and
  \<^verbatim>\<open>execution_lib.is_execution_active\<close> are not under src/.  "An execution is active iff
  its state is not terminal; successful iff its state is successful or cached."
\<close>

definition is_execution_successful :: "Execution \<Rightarrow> bool" where
  "is_execution_successful e =
     (last_known_state e = Execution_SUCCESSFUL \<or> last_known_state e = Execution_CACHED)"

definition is_execution_active :: "Execution \<Rightarrow> bool" where
  "is_execution_active e = (last_known_state e = Execution_ACTIVE)"

datatype NodeState =
    NodeState_STARTING
  | NodeState_RUNNING
  | NodeState_COMPLETE
  | NodeState_FAILED
  | NodeState_SKIPPED
  | NodeState_STOPPING
  | NodeState_STOPPED

datatype ServiceStatus = ServiceStatus_RUNNING | ServiceStatus_SUCCESS | ServiceStatus_FAILED

datatype Code = Code_OK | Code_CANCELLED | Code_UNKNOWN | Code_ABORTED

record Status =
  status_code :: Code
  status_message :: string

type_synonym PipelineUid = string

datatype NodeUid = NodeUid (uid_pipeline_uid: PipelineUid) (uid_node_id: string)

record ExecNodeTask_fields =
  task_node_uid :: NodeUid
  task_execution_id :: nat
  task_contexts :: "Context list"
  task_input_artifacts :: ArtifactDict
  task_exec_properties :: Properties
  task_output_artifacts :: ArtifactDict
  task_executor_output_uri :: string
  task_stateful_working_dir :: string
  task_pipeline :: Pipeline

datatype Task =
    UpdateNodeStateTask NodeUid NodeState "Status option"
  | ExecNodeTask ExecNodeTask_fields
  | FinalizePipelineTask PipelineUid Status

fun is_update_node_state_task :: "Task \<Rightarrow> bool" where
  "is_update_node_state_task (UpdateNodeStateTask _ _ _) = True"
| "is_update_node_state_task _ = False"

fun is_exec_node_task :: "Task \<Rightarrow> bool" where
  "is_exec_node_task (ExecNodeTask _) = True"
| "is_exec_node_task _ = False"

fun is_finalize_pipeline_task :: "Task \<Rightarrow> bool" where
  "is_finalize_pipeline_task (FinalizePipelineTask _ _) = True"
| "is_finalize_pipeline_task _ = False"

definition PipelineUid_from_pipeline :: "Pipeline \<Rightarrow> PipelineUid" where
  "PipelineUid_from_pipeline pipeline = pipeline_info_id pipeline"

definition NodeUid_from_pipeline_node :: "Pipeline \<Rightarrow> PipelineNode \<Rightarrow> NodeUid" where
  "NodeUid_from_pipeline_node pipeline node =
     NodeUid (PipelineUid_from_pipeline pipeline) (node_info_id node)"

type_synonym TaskId = "string \<times> NodeUid"

definition exec_node_task_id_from_pipeline_node :: "Pipeline \<Rightarrow> PipelineNode \<Rightarrow> TaskId" where
  "exec_node_task_id_from_pipeline_node pipeline node =
     (''ExecNodeTask'', NodeUid_from_pipeline_node pipeline node)"

record ResolvedInfo =
  resolved_contexts :: "Context list"
  resolved_exec_properties :: Properties
  resolved_input_artifacts :: "ArtifactDict option"

definition EXECUTION_ERROR_MSG_KEY :: string where
  "EXECUTION_ERROR_MSG_KEY = ''__execution_error_msg__''"

text \<open>
  Modelled from the spec: \<^verbatim>\<open>task_gen_utils.get_latest_execution\<close> is not under src/.
  "Let E = most recent (by id)"; \<open>None\<close> when the node has no execution.
\<close>

definition get_latest_execution :: "Execution list \<Rightarrow> Execution option" where
  "get_latest_execution executions =
     (case executions of
        [] \<Rightarrow> None
      | e # es \<Rightarrow>
          Some (foldl (\<lambda>best x. if execution_id best < execution_id x then x else best) e es))"


section \<open>Sync task generator (\<^verbatim>\<open>sync_pipeline_task_gen.py\<close>)\<close>

text \<open>
  The collaborators the generator calls but does not define: the topological sort, the
  process-wide LRU cache, the pipeline state, the service job manager, the task queue's
  tracking predicate, and the metadata-store helpers.  Each is a parameter.  \<open>'w\<close> is the
  state of everything outside the generator (metadata store, cache, file system); a call
  that may write takes the state and returns the new one.
\<close>

record 'w externals =
  topsorted_layers_fn :: "PipelineNode list \<Rightarrow> error + PipelineNode list list"
  cache_get_fn :: "'w \<Rightarrow> string \<times> NodeUid \<Rightarrow> bool \<times> 'w"
  cache_set_fn :: "'w \<Rightarrow> string \<times> NodeUid \<Rightarrow> 'w"
  get_node_state_fn :: "'w \<Rightarrow> NodeUid \<Rightarrow> NodeState"
  is_pure_service_node_fn :: "'w \<Rightarrow> string \<Rightarrow> bool"
  is_mixed_service_node_fn :: "'w \<Rightarrow> string \<Rightarrow> bool"
  ensure_node_services_fn :: "'w \<Rightarrow> string \<Rightarrow> ServiceStatus \<times> 'w"
  is_task_id_tracked_fn :: "'w \<Rightarrow> TaskId \<Rightarrow> bool"
  get_executions_fn :: "'w \<Rightarrow> PipelineNode \<Rightarrow> Execution list"
  task_from_execution_fn ::
    "'w \<Rightarrow> Pipeline \<Rightarrow> PipelineNode \<Rightarrow> Execution \<Rightarrow> ExecNodeTask_fields \<times> 'w"
  generate_resolved_info_fn :: "'w \<Rightarrow> PipelineNode \<Rightarrow> ResolvedInfo option \<times> 'w"
  register_execution_fn ::
    "'w \<Rightarrow> string \<Rightarrow> Context list \<Rightarrow> ArtifactDict \<Rightarrow> Properties \<Rightarrow> Execution \<times> 'w"
  generate_output_artifacts_fn :: "Pipeline \<Rightarrow> PipelineNode \<Rightarrow> nat \<Rightarrow> ArtifactDict"
  get_executor_output_uri_fn :: "Pipeline \<Rightarrow> PipelineNode \<Rightarrow> nat \<Rightarrow> string"
  get_stateful_working_directory_fn :: "Pipeline \<Rightarrow> PipelineNode \<Rightarrow> nat \<Rightarrow> string"
  get_cache_context_fn ::
    "'w \<Rightarrow> PipelineNode \<Rightarrow> string \<Rightarrow> string option \<Rightarrow> ArtifactDict \<Rightarrow> ArtifactDict
       \<Rightarrow> Properties \<Rightarrow> Context \<times> 'w"
  get_cached_outputs_fn :: "'w \<Rightarrow> Context \<Rightarrow> ArtifactDict option"
  publish_cached_execution_fn :: "'w \<Rightarrow> Context list \<Rightarrow> nat \<Rightarrow> ArtifactDict \<Rightarrow> 'w"
  record_state_change_time_fn :: "'w \<Rightarrow> 'w"
  make_output_dirs_fn :: "'w \<Rightarrow> ArtifactDict \<Rightarrow> 'w"
  str_NodeUid_fn :: "NodeUid \<Rightarrow> string"

text \<open>The fields \<^verbatim>\<open>__init__\<close> stores on the generator.\<close>

record 'w generator = "'w externals" +
  gen_pipeline :: Pipeline
  gen_pipeline_uid :: PipelineUid
  gen_pipeline_run_id :: string

fun is_pipeline_node :: "PipelineOrNode \<Rightarrow> bool" where
  "is_pipeline_node (pipeline_node _) = True"
| "is_pipeline_node (sub_pipeline _) = False"

definition SyncPipelineTaskGenerator_init ::
  "'w externals \<Rightarrow> Pipeline \<Rightarrow> error + 'w generator" where
  "SyncPipelineTaskGenerator_init ext pipeline =
     (if execution_mode pipeline \<noteq> SYNC then
        Inl (ValueError ''SyncPipelineTaskGenerator should be instantiated with a pipeline proto having execution_mode `SYNC`'')
      else (case find (\<lambda>pn. \<not> is_pipeline_node pn) (nodes pipeline) of
              Some _ \<Rightarrow> Inl (ValueError
                ''All sync pipeline nodes should be of type `PipelineNode`'')
            | None \<Rightarrow>
                Inr (externals.extend ext
                  (generator.fields pipeline (PipelineUid_from_pipeline pipeline)
                     (case pipeline_run_id pipeline of Some r \<Rightarrow> r | None \<Rightarrow> [])))))"

definition node_cache_key :: "'w generator \<Rightarrow> NodeUid \<Rightarrow> string \<times> NodeUid" where
  "node_cache_key g node_uid = (gen_pipeline_run_id g, node_uid)"

definition in_successful_nodes_cache :: "'w generator \<Rightarrow> NodeUid \<Rightarrow> 'w \<Rightarrow> bool \<times> 'w" where
  "in_successful_nodes_cache g node_uid w = cache_get_fn g w (node_cache_key g node_uid)"

text \<open>
  \<^verbatim>\<open>_update_successful_nodes_cache\<close> iterates over a Python set, whose order is not
  specified; the model takes the ids as a list, in the order its caller builds it.
\<close>

fun update_successful_nodes_cache :: "'w generator \<Rightarrow> string list \<Rightarrow> 'w \<Rightarrow> 'w" where
  "update_successful_nodes_cache g [] w = w"
| "update_successful_nodes_cache g (nid # nids) w =
     update_successful_nodes_cache g nids
       (cache_set_fn g w (node_cache_key g (NodeUid (gen_pipeline_uid g) nid)))"

definition upstream_nodes_successful :: "PipelineNode \<Rightarrow> string set \<Rightarrow> bool" where
  "upstream_nodes_successful node successful_node_ids =
     (set (upstream_nodes node) \<subseteq> successful_node_ids)"

definition abort_task :: "'w generator \<Rightarrow> string \<Rightarrow> Task" where
  "abort_task g error_msg =
     FinalizePipelineTask (gen_pipeline_uid g)
       \<lparr>status_code = Code_ABORTED,
        status_message =
          ''Aborting pipeline execution due to node execution failure; error: '' @ error_msg\<rparr>"

definition ensure_node_services_if_pure ::
  "'w generator \<Rightarrow> string \<Rightarrow> 'w \<Rightarrow> ServiceStatus option \<times> 'w" where
  "ensure_node_services_if_pure g node_id w =
     (if is_pure_service_node_fn g w node_id
      then (case ensure_node_services_fn g w node_id of (st, w') \<Rightarrow> (Some st, w'))
      else (None, w))"

definition ensure_node_services_if_mixed ::
  "'w generator \<Rightarrow> string \<Rightarrow> 'w \<Rightarrow> ServiceStatus option \<times> 'w" where
  "ensure_node_services_if_mixed g node_id w =
     (if is_mixed_service_node_fn g w node_id
      then (case ensure_node_services_fn g w node_id of (st, w') \<Rightarrow> (Some st, w'))
      else (None, w))"

definition get_executor_spec :: "Pipeline \<Rightarrow> string \<Rightarrow> string option" where
  "get_executor_spec pipeline node_id =
     (case executor_specs pipeline of None \<Rightarrow> None | Some specs \<Rightarrow> map_of specs node_id)"

text \<open>
  Modelled from the spec: \<^verbatim>\<open>task_gen_utils.generate_task_from_active_execution\<close> is not
  under src/.  "If an active execution for N exists, rebuild an ExecNodeTask from it";
  the rebuilding itself is the parameter \<open>task_from_execution_fn\<close>.
\<close>

definition generate_task_from_active_execution ::
  "'w generator \<Rightarrow> 'w \<Rightarrow> Pipeline \<Rightarrow> PipelineNode \<Rightarrow> Execution list
     \<Rightarrow> ExecNodeTask_fields option \<times> 'w" where
  "generate_task_from_active_execution g w pipeline node executions =
     (case filter is_execution_active executions of
        [] \<Rightarrow> (None, w)
      | execution # _ \<Rightarrow>
          (case task_from_execution_fn g w pipeline node execution of
             (task, w') \<Rightarrow> (Some task, w')))"

text \<open>
  The tail of \<^verbatim>\<open>_resolve_inputs_and_generate_tasks_for_node\<close> after the cache check: the
  mixed-service check, the output directories, and the two tasks that launch the node.
\<close>

definition launch_tasks ::
  "'w generator \<Rightarrow> PipelineNode \<Rightarrow> ResolvedInfo \<Rightarrow> ArtifactDict \<Rightarrow> Execution \<Rightarrow> ArtifactDict
     \<Rightarrow> Context list \<Rightarrow> string set \<Rightarrow> 'w \<Rightarrow> Task list \<times> string set \<times> 'w" where
  "launch_tasks g node resolved_info input_artifacts execution output_artifacts contexts
     successful_node_ids w =
     (let node_uid = NodeUid_from_pipeline_node (gen_pipeline g) node in
      case ensure_node_services_if_mixed g (node_info_id node) w of
        (service_status, w1) \<Rightarrow>
          if service_status = Some ServiceStatus_FAILED then
            (let error_msg = ''associated service job failed; node uid: '' @ str_NodeUid_fn g node_uid
             in ([UpdateNodeStateTask node_uid NodeState_FAILED
                    (Some \<lparr>status_code = Code_ABORTED, status_message = error_msg\<rparr>),
                  abort_task g error_msg], successful_node_ids, w1))
          else
            (let w2 = make_output_dirs_fn g w1 output_artifacts in
             ([UpdateNodeStateTask node_uid NodeState_RUNNING None,
               ExecNodeTask
                 \<lparr>task_node_uid = node_uid,
                  task_execution_id = execution_id execution,
                  task_contexts = contexts,
                  task_input_artifacts = input_artifacts,
                  task_exec_properties = resolved_exec_properties resolved_info,
                  task_output_artifacts = output_artifacts,
                  task_executor_output_uri =
                    get_executor_output_uri_fn g (gen_pipeline g) node (execution_id execution),
                  task_stateful_working_dir =
                    get_stateful_working_directory_fn g (gen_pipeline g) node
                      (execution_id execution),
                  task_pipeline = gen_pipeline g\<rparr>], successful_node_ids, w2)))"

text \<open>
  \<^verbatim>\<open>_resolve_inputs_and_generate_tasks_for_node\<close>.  The result is the task list, the
  set \<^verbatim>\<open>successful_node_ids\<close> after the call (the Python mutates the caller's set) and
  the outside state.
\<close>

definition resolve_inputs_and_generate_tasks_for_node ::
  "'w generator \<Rightarrow> PipelineNode \<Rightarrow> Execution list \<Rightarrow> string set \<Rightarrow> 'w
     \<Rightarrow> Task list \<times> string set \<times> 'w" where
  "resolve_inputs_and_generate_tasks_for_node g node node_executions successful_node_ids w =
     (let node_uid = NodeUid_from_pipeline_node (gen_pipeline g) node in
      case generate_resolved_info_fn g w node of
        (None, w1) \<Rightarrow>
          ([UpdateNodeStateTask node_uid NodeState_SKIPPED None],
           insert (node_info_id node) successful_node_ids, w1)
      | (Some resolved_info, w1) \<Rightarrow>
          (case resolved_input_artifacts resolved_info of
             None \<Rightarrow>
               (let error_msg = ''failure to resolve inputs; node uid: '' @ str_NodeUid_fn g node_uid
                in ([UpdateNodeStateTask node_uid NodeState_FAILED
                       (Some \<lparr>status_code = Code_ABORTED, status_message = error_msg\<rparr>),
                     abort_task g error_msg], successful_node_ids, w1))
           | Some input_artifacts \<Rightarrow>
               (case register_execution_fn g w1 (node_info_type node)
                       (resolved_contexts resolved_info) input_artifacts
                       (resolved_exec_properties resolved_info) of
                  (execution, w2) \<Rightarrow>
                    (let output_artifacts =
                           generate_output_artifacts_fn g (gen_pipeline g) node
                             (execution_id execution)
                     in case get_cache_context_fn g w2 node (pipeline_info_id (gen_pipeline g))
                               (get_executor_spec (gen_pipeline g) (node_info_id node))
                               input_artifacts output_artifacts
                               (resolved_exec_properties resolved_info) of
                          (cache_context, w3) \<Rightarrow>
                            (let contexts = resolved_contexts resolved_info @ [cache_context];
                                 cached_outputs =
                                   (if enable_cache node
                                    then get_cached_outputs_fn g w3 cache_context else None)
                             in case cached_outputs of
                                  Some outputs \<Rightarrow>
                                    (let w4 = publish_cached_execution_fn g w3 contexts
                                                (execution_id execution) outputs;
                                         w5 = record_state_change_time_fn g w4
                                     in ([UpdateNodeStateTask node_uid NodeState_COMPLETE None],
                                         insert (node_info_id node) successful_node_ids, w5))
                                | None \<Rightarrow>
                                    launch_tasks g node resolved_info input_artifacts execution
                                      output_artifacts contexts successful_node_ids w3)))))"


text \<open>
  The part of \<^verbatim>\<open>_generate_tasks_for_node\<close> that consults the node's executions
  (from \<^verbatim>\<open>task_gen_utils.get_executions\<close> on), reached when no earlier check of the
  function returned.
\<close>

definition tasks_from_executions ::
  "'w generator \<Rightarrow> PipelineNode \<Rightarrow> NodeState \<Rightarrow> string set \<Rightarrow> 'w
     \<Rightarrow> Task list \<times> string set \<times> 'w" where
  "tasks_from_executions g node node_state successful_node_ids w =
     (let node_uid = NodeUid_from_pipeline_node (gen_pipeline g) node;
          node_executions = get_executions_fn g w node;
          latest_execution = get_latest_execution node_executions
      in if (case latest_execution of None \<Rightarrow> False | Some e \<Rightarrow> is_execution_successful e) then
           ([UpdateNodeStateTask node_uid NodeState_COMPLETE None],
            insert (node_info_id node) successful_node_ids, w)
         else if (case latest_execution of None \<Rightarrow> False | Some e \<Rightarrow> \<not> is_execution_active e)
                 \<and> node_state \<noteq> NodeState_STARTING then
           (let error_msg =
                  (case latest_execution of
                     None \<Rightarrow> []
                   | Some e \<Rightarrow>
                       (case map_of (custom_properties e) EXECUTION_ERROR_MSG_KEY of
                          Some error_msg_value \<Rightarrow> error_msg_value
                        | None \<Rightarrow> []))
            in ([UpdateNodeStateTask node_uid NodeState_FAILED
                   (Some \<lparr>status_code = Code_ABORTED, status_message = error_msg\<rparr>),
                 abort_task g (''node failed; node uid: '' @ str_NodeUid_fn g node_uid
                               @ ''; error: '' @ error_msg)],
                successful_node_ids, w))
         else
           (case generate_task_from_active_execution g w (gen_pipeline g) node node_executions of
              (Some exec_node_task, w1) \<Rightarrow>
                ([UpdateNodeStateTask node_uid NodeState_RUNNING None, ExecNodeTask exec_node_task],
                 successful_node_ids, w1)
            | (None, w1) \<Rightarrow>
                resolve_inputs_and_generate_tasks_for_node g node node_executions
                  successful_node_ids w1))"

text \<open>
  \<^verbatim>\<open>_generate_tasks_for_node\<close>: the checks in the order of the source, each returning
  the task list, the set \<^verbatim>\<open>successful_node_ids\<close> after the call and the outside state.
\<close>

definition generate_tasks_for_node ::
  "'w generator \<Rightarrow> PipelineNode \<Rightarrow> string set \<Rightarrow> 'w \<Rightarrow> Task list \<times> string set \<times> 'w" where
  "generate_tasks_for_node g node successful_node_ids w =
     (let node_uid = NodeUid_from_pipeline_node (gen_pipeline g) node;
          nid = node_info_id node
      in case in_successful_nodes_cache g node_uid w of
           (in_cache, w1) \<Rightarrow>
             if in_cache then ([], insert nid successful_node_ids, w1)
             else if \<not> upstream_nodes_successful node successful_node_ids then
               ([], successful_node_ids, w1)
             else
               (let node_state = get_node_state_fn g w1 node_uid in
                if node_state = NodeState_STOPPING \<or> node_state = NodeState_STOPPED then
                  ([], successful_node_ids, w1)
                else
                  (case ensure_node_services_if_pure g nid w1 of
                     (Some service_status, w2) \<Rightarrow>
                       (case service_status of
                          ServiceStatus_FAILED \<Rightarrow>
                            (let error_msg =
                                   ''service job failed; node uid: '' @ str_NodeUid_fn g node_uid
                             in ([UpdateNodeStateTask node_uid NodeState_FAILED
                                    (Some \<lparr>status_code = Code_ABORTED,
                                           status_message = error_msg\<rparr>),
                                  abort_task g error_msg], successful_node_ids, w2))
                        | ServiceStatus_SUCCESS \<Rightarrow>
                            ([UpdateNodeStateTask node_uid NodeState_COMPLETE None],
                             insert nid successful_node_ids, w2)
                        | ServiceStatus_RUNNING \<Rightarrow>
                            ([UpdateNodeStateTask node_uid NodeState_RUNNING None],
                             successful_node_ids, w2))
                   | (None, w2) \<Rightarrow>
                       if is_task_id_tracked_fn g w2
                            (exec_node_task_id_from_pipeline_node (gen_pipeline g) node) then
                         (case ensure_node_services_if_mixed g nid w2 of
                            (service_status, w3) \<Rightarrow>
                              if service_status = Some ServiceStatus_FAILED then
                                (let error_msg = ''associated service job failed; node uid: ''
                                                 @ str_NodeUid_fn g node_uid
                                 in ([UpdateNodeStateTask node_uid NodeState_FAILED
                                        (Some \<lparr>status_code = Code_ABORTED,
                                               status_message = error_msg\<rparr>),
                                      abort_task g error_msg], successful_node_ids, w3))
                              else ([], successful_node_ids, w3))
                       else tasks_from_executions g node node_state successful_node_ids w2)))"

text \<open>
  The state of one call of \<^verbatim>\<open>generate\<close>: its four local accumulators and the outside
  state.
\<close>

record 'w tick =
  exec_node_tasks :: "Task list"
  update_node_state_tasks :: "Task list"
  successful_node_ids :: "string set"
  finalize_pipeline_task :: "Task option"
  outside :: 'w

text \<open>
  The loop \<^verbatim>\<open>for task in tasks\<close>.  The \<^verbatim>\<open>assert\<close> of the last branch cannot fail: a
  task that is neither an update nor an execution task is a finalize task.
\<close>

fun classify_tasks :: "Task list \<Rightarrow> 'w tick \<Rightarrow> 'w tick" where
  "classify_tasks [] t = t"
| "classify_tasks (task # tasks) t =
     classify_tasks tasks
       (if is_update_node_state_task task then
          t\<lparr>update_node_state_tasks := update_node_state_tasks t @ [task]\<rparr>
        else if is_exec_node_task task then
          t\<lparr>exec_node_tasks := exec_node_tasks t @ [task]\<rparr>
        else t\<lparr>finalize_pipeline_task := Some task\<rparr>)"

text \<open>The loop \<^verbatim>\<open>for node in layer_nodes\<close>, with its \<^verbatim>\<open>break\<close>.\<close>

fun layer_loop :: "'w generator \<Rightarrow> PipelineNode list \<Rightarrow> 'w tick \<Rightarrow> 'w tick" where
  "layer_loop g [] t = t"
| "layer_loop g (node # layer_nodes) t =
     (case generate_tasks_for_node g node (successful_node_ids t) (outside t) of
        (tasks, successful, w) \<Rightarrow>
          (let t' = classify_tasks tasks (t\<lparr>successful_node_ids := successful, outside := w\<rparr>)
           in if finalize_pipeline_task t' \<noteq> None then t' else layer_loop g layer_nodes t'))"

text \<open>
  The loop \<^verbatim>\<open>for layer_nodes in layers\<close>, with its \<^verbatim>\<open>break\<close> and the update of the
  successful-nodes cache after each layer.
\<close>

fun layers_loop :: "'w generator \<Rightarrow> PipelineNode list list \<Rightarrow> 'w tick \<Rightarrow> 'w tick" where
  "layers_loop g [] t = t"
| "layers_loop g (layer_nodes # layers) t =
     (let t' = layer_loop g layer_nodes t
      in if finalize_pipeline_task t' \<noteq> None then t'
         else
           (let successful_layer_node_ids =
                  filter (\<lambda>i. i \<in> successful_node_ids t')
                    (remdups (map node_info_id layer_nodes))
            in layers_loop g layers
                 (t'\<lparr>outside := update_successful_nodes_cache g successful_layer_node_ids
                                   (outside t')\<rparr>)))"

definition topsorted_layers :: "'w generator \<Rightarrow> Pipeline \<Rightarrow> error + PipelineNode list list" where
  "topsorted_layers g pipeline = topsorted_layers_fn g (map get_pipeline_node (nodes pipeline))"

definition terminal_node_ids :: "PipelineNode list list \<Rightarrow> string set" where
  "terminal_node_ids layers =
     set (map node_info_id (filter (\<lambda>node. downstream_nodes node = []) (concat layers)))"

text \<open>The accumulators of \<^verbatim>\<open>generate\<close> when its loops end.\<close>

definition generate_loops :: "'w generator \<Rightarrow> PipelineNode list list \<Rightarrow> 'w \<Rightarrow> 'w tick" where
  "generate_loops g layers w =
     layers_loop g layers
       \<lparr>exec_node_tasks = [], update_node_state_tasks = [], successful_node_ids = {},
        finalize_pipeline_task = None, outside = w\<rparr>"

definition generate :: "'w generator \<Rightarrow> 'w \<Rightarrow> error + (Task list \<times> 'w)" where
  "generate g w =
     (case topsorted_layers g (gen_pipeline g) of
        Inl e \<Rightarrow> Inl e
      | Inr layers \<Rightarrow>
          (let t = generate_loops g layers w;
               result = update_node_state_tasks t
           in Inr
                ((case finalize_pipeline_task t of
                    Some task \<Rightarrow> result @ [task]
                  | None \<Rightarrow>
                      if terminal_node_ids layers \<subseteq> successful_node_ids t then
                        result @ [FinalizePipelineTask (gen_pipeline_uid g)
                                    \<lparr>status_code = Code_OK, status_message = []\<rparr>]
                      else result @ exec_node_tasks t),
                 outside t)))"


section \<open>Artifact recycler (\<^verbatim>\<open>partial_run_utils.py\<close>)\<close>

subsection \<open>The metadata store\<close>

text \<open>
  Modelled from the spec: the metadata-store client and the helper libraries
  \<^verbatim>\<open>execution_lib\<close>, \<^verbatim>\<open>context_lib\<close>, \<^verbatim>\<open>execution_publish_utils\<close> and \<^verbatim>\<open>compiler_utils\<close> are
  not under src/.  The specification describes an execution as having an id, a type, a
  state and associations to contexts, artifacts as attached to executions by output
  events, contexts as typed named entities, and parent-context edges between contexts.
  The store keeps executions in the order of their registration; ids are given out in
  increasing order.
\<close>

record stored_execution =
  stored :: Execution
  associated_context_ids :: "nat list"
  output_events :: ArtifactDict

record mlmd =
  store_contexts :: "Context list"
  store_executions :: "stored_execution list"
  store_parent_contexts :: "(nat \<times> nat) list"
  store_now :: nat

definition PIPELINE_CONTEXT_TYPE_NAME :: string where
  "PIPELINE_CONTEXT_TYPE_NAME = ''pipeline''"

definition PIPELINE_RUN_CONTEXT_TYPE_NAME :: string where
  "PIPELINE_RUN_CONTEXT_TYPE_NAME = ''pipeline_run''"

definition NODE_CONTEXT_TYPE_NAME :: string where
  "NODE_CONTEXT_TYPE_NAME = ''node''"

text \<open>
  Modelled from the spec: "Node context name is a deterministic function of
  (pipeline_name, node_id)"; the two names are joined by a dot.
\<close>

definition node_context_name :: "string \<Rightarrow> string \<Rightarrow> string" where
  "node_context_name pipeline_name nid = pipeline_name @ ''.'' @ nid"

definition get_context_by_type_and_name :: "mlmd \<Rightarrow> string \<Rightarrow> string \<Rightarrow> Context option" where
  "get_context_by_type_and_name s type_name name =
     find (\<lambda>c. context_type c = type_name \<and> context_name c = name) (store_contexts s)"

definition get_contexts_by_type :: "mlmd \<Rightarrow> string \<Rightarrow> Context list" where
  "get_contexts_by_type s type_name =
     filter (\<lambda>c. context_type c = type_name) (store_contexts s)"

definition get_contexts_by_execution :: "mlmd \<Rightarrow> nat \<Rightarrow> Context list" where
  "get_contexts_by_execution s eid =
     filter (\<lambda>c. \<exists>x\<in>set (store_executions s).
                execution_id (stored x) = eid \<and> context_id c \<in> set (associated_context_ids x))
       (store_contexts s)"

definition fresh_context_id :: "mlmd \<Rightarrow> nat" where
  "fresh_context_id s = Suc (foldr max (map context_id (store_contexts s)) 0)"

definition fresh_execution_id :: "mlmd \<Rightarrow> nat" where
  "fresh_execution_id s =
     Suc (foldr max (map (\<lambda>x. execution_id (stored x)) (store_executions s)) 0)"

definition register_context_if_not_exists :: "mlmd \<Rightarrow> string \<Rightarrow> string \<Rightarrow> Context \<times> mlmd" where
  "register_context_if_not_exists s type_name name =
     (case get_context_by_type_and_name s type_name name of
        Some c \<Rightarrow> (c, s)
      | None \<Rightarrow>
          (let c = \<lparr>context_id = fresh_context_id s, context_type = type_name,
                    context_name = name, create_time_since_epoch = store_now s\<rparr>
           in (c, s\<lparr>store_contexts := store_contexts s @ [c]\<rparr>)))"

definition associated_with_all :: "Context list \<Rightarrow> stored_execution \<Rightarrow> bool" where
  "associated_with_all contexts x =
     (\<forall>c\<in>set contexts. context_id c \<in> set (associated_context_ids x))"

definition get_executions_associated_with_all_contexts ::
  "mlmd \<Rightarrow> Context list \<Rightarrow> Execution list" where
  "get_executions_associated_with_all_contexts s contexts =
     map stored (filter (associated_with_all contexts) (store_executions s))"

definition register_execution :: "mlmd \<Rightarrow> string \<Rightarrow> Context list \<Rightarrow> Execution \<times> mlmd" where
  "register_execution s execution_type contexts =
     (let e = \<lparr>execution_id = fresh_execution_id s, execution_type_id = execution_type,
               last_known_state = Execution_ACTIVE, custom_properties = []\<rparr>
      in (e, s\<lparr>store_executions := store_executions s
                  @ [\<lparr>stored = e, associated_context_ids = map context_id contexts,
                      output_events = []\<rparr>]\<rparr>))"

text \<open>
  Modelled from the spec: "Publishing a cached execution writes a new Execution with
  state CACHED and attaches the supplied output artifacts via OUTPUT events."  The
  execution with the given id gets the state, the associations it lacks and the events.
\<close>

definition publish_one ::
  "Context list \<Rightarrow> ArtifactDict \<Rightarrow> stored_execution \<Rightarrow> stored_execution" where
  "publish_one contexts outputs x =
     \<lparr>stored = (stored x)\<lparr>last_known_state := Execution_CACHED\<rparr>,
      associated_context_ids =
        associated_context_ids x
        @ filter (\<lambda>k. k \<notin> set (associated_context_ids x)) (map context_id contexts),
      output_events = output_events x @ outputs\<rparr>"

definition publish_cached_execution ::
  "mlmd \<Rightarrow> Context list \<Rightarrow> nat \<Rightarrow> ArtifactDict \<Rightarrow> mlmd" where
  "publish_cached_execution s contexts eid outputs =
     s\<lparr>store_executions :=
         map (\<lambda>x. if execution_id (stored x) = eid then publish_one contexts outputs x else x)
           (store_executions s)\<rparr>"

definition get_artifacts_dict :: "mlmd \<Rightarrow> nat \<Rightarrow> ArtifactDict" where
  "get_artifacts_dict s eid =
     concat (map output_events
       (filter (\<lambda>x. execution_id (stored x) = eid) (store_executions s)))"

definition put_parent_context_if_not_exists :: "mlmd \<Rightarrow> nat \<Rightarrow> nat \<Rightarrow> mlmd" where
  "put_parent_context_if_not_exists s parent_id child_id =
     (if (parent_id, child_id) \<in> set (store_parent_contexts s) then s
      else s\<lparr>store_parent_contexts := store_parent_contexts s @ [(parent_id, child_id)]\<rparr>)"

text \<open>Modelled from the spec: newest first, the most recent being the one with the largest id.\<close>

definition sort_executions_newest_to_oldest :: "Execution list \<Rightarrow> Execution list" where
  "sort_executions_newest_to_oldest executions = rev (sort_key execution_id executions)"

subsection \<open>Run ids and the nodes to reuse\<close>

text \<open>Python's truth value of an optional string: \<^verbatim>\<open>None\<close> and the empty string are false.\<close>

fun truthy :: "string option \<Rightarrow> bool" where
  "truthy None = False"
| "truthy (Some v) = (v \<noteq> [])"

definition get_validated_new_run_id :: "Pipeline \<Rightarrow> string option \<Rightarrow> error + string" where
  "get_validated_new_run_id pipeline new_run_id =
     (let inferred_new_run_id = pipeline_run_id pipeline in
      if \<not> (truthy inferred_new_run_id \<or> truthy new_run_id) then
        Inl (ValueError ''Unable to infer new pipeline run id.'')
      else if truthy new_run_id \<and> truthy inferred_new_run_id
              \<and> new_run_id \<noteq> inferred_new_run_id then
        Inl (ValueError ''Conflicting new pipeline run ids found.'')
      else Inr (the (if truthy inferred_new_run_id then inferred_new_run_id else new_run_id)))"

definition compute_nodes_to_reuse :: "Pipeline \<Rightarrow> error + string set" where
  "compute_nodes_to_reuse marked_pipeline =
     (let nm = make_ordered_node_map marked_pipeline;
          nodes_to_run =
            map node_id_of
              (filter (\<lambda>pn. HasField_run (partial_run_option (get_pipeline_node pn)))
                 (nodes marked_pipeline));
          skipped_nodes_w_included_children =
            map node_id_of
              (filter (\<lambda>pn. partial_run_option (get_pipeline_node pn) = Skip True)
                 (nodes marked_pipeline))
      in (case traverse nm DOWNSTREAM nodes_to_run of
            Inl e \<Rightarrow> Inl e
          | Inr exclusion_set \<Rightarrow>
              (case traverse nm UPSTREAM skipped_nodes_w_included_children of
                 Inl e \<Rightarrow> Inl e
               | Inr inclusion_set \<Rightarrow>
                   if exclusion_set \<inter> inclusion_set \<noteq> {} then
                     Inl (ValueError ''This should never happen. Did you modify the outputs of filter_pipeline?'')
                   else Inr (set (map fst nm) - exclusion_set))))"

subsection \<open>The recycler object\<close>

record ArtifactRecycler =
  recycler_pipeline_name :: string
  recycler_pipeline_context :: Context
  recycler_new_run_id :: string
  recycler_pipeline_run_type_id :: string
  recycler_pipeline_run_contexts :: "(string \<times> Context) list"

definition ArtifactRecycler_init :: "mlmd \<Rightarrow> string \<Rightarrow> string \<Rightarrow> error + ArtifactRecycler" where
  "ArtifactRecycler_init s pipeline_name new_run_id =
     (case get_context_by_type_and_name s PIPELINE_CONTEXT_TYPE_NAME pipeline_name of
        None \<Rightarrow> Inl (LookupError (''pipeline '' @ pipeline_name @ '' not found in MLMD.''))
      | Some pipeline_context \<Rightarrow>
          Inr \<lparr>recycler_pipeline_name = pipeline_name,
               recycler_pipeline_context = pipeline_context,
               recycler_new_run_id = new_run_id,
               recycler_pipeline_run_type_id = PIPELINE_RUN_CONTEXT_TYPE_NAME,
               recycler_pipeline_run_contexts =
                 foldl (\<lambda>result run_ctx. ordered_dict_set (context_name run_ctx) run_ctx result)
                   [] (get_contexts_by_type s PIPELINE_RUN_CONTEXT_TYPE_NAME)\<rparr>)"

text \<open>
  \<^verbatim>\<open>_get_pipeline_run_context\<close>, once for each value of \<^verbatim>\<open>register_if_not_found\<close>: without
  registration it reads the in-memory dictionary only and may raise; with registration it
  cannot raise, and may add a context to the store and to the dictionary.
\<close>

definition get_pipeline_run_context :: "ArtifactRecycler \<Rightarrow> string \<Rightarrow> error + Context" where
  "get_pipeline_run_context r run_id =
     (case map_of (recycler_pipeline_run_contexts r) run_id of
        None \<Rightarrow> Inl (LookupError (''pipeline_run_id '' @ run_id @ '' not found in MLMD.''))
      | Some c \<Rightarrow> Inr c)"

definition get_or_register_pipeline_run_context ::
  "ArtifactRecycler \<Rightarrow> mlmd \<Rightarrow> string \<Rightarrow> Context \<times> ArtifactRecycler \<times> mlmd" where
  "get_or_register_pipeline_run_context r s run_id =
     (case map_of (recycler_pipeline_run_contexts r) run_id of
        Some c \<Rightarrow> (c, r, s)
      | None \<Rightarrow>
          (case register_context_if_not_exists s PIPELINE_RUN_CONTEXT_TYPE_NAME run_id of
             (pipeline_run_context, s') \<Rightarrow>
               (pipeline_run_context,
                r\<lparr>recycler_pipeline_run_contexts :=
                    ordered_dict_set run_id pipeline_run_context
                      (recycler_pipeline_run_contexts r)\<rparr>,
                s')))"

text \<open>The loop of \<^verbatim>\<open>get_latest_pipeline_run_id\<close> over the values of the dictionary.\<close>

fun latest_previous_run_ctx ::
  "string \<Rightarrow> Context list \<Rightarrow> Context option \<Rightarrow> Context option" where
  "latest_previous_run_ctx new_run_id [] latest = latest"
| "latest_previous_run_ctx new_run_id (c # cs) latest =
     latest_previous_run_ctx new_run_id cs
       (if context_name c = new_run_id then latest
        else (case latest of
                None \<Rightarrow> Some c
              | Some l \<Rightarrow>
                  if create_time_since_epoch c > create_time_since_epoch l then Some c
                  else Some l))"

definition get_latest_pipeline_run_id :: "ArtifactRecycler \<Rightarrow> error + string" where
  "get_latest_pipeline_run_id r =
     (case latest_previous_run_ctx (recycler_new_run_id r)
             (map snd (recycler_pipeline_run_contexts r)) None of
        None \<Rightarrow> Inl (LookupError ''No previous pipeline_run_ids found.'')
      | Some c \<Rightarrow> Inr (context_name c))"

definition get_node_context :: "ArtifactRecycler \<Rightarrow> mlmd \<Rightarrow> string \<Rightarrow> error + Context" where
  "get_node_context r s nid =
     (case get_context_by_type_and_name s NODE_CONTEXT_TYPE_NAME
             (node_context_name (recycler_pipeline_name r) nid) of
        None \<Rightarrow> Inl (LookupError (''node context ''
                  @ node_context_name (recycler_pipeline_name r) nid @ '' not found in MLMD.''))
      | Some c \<Rightarrow> Inr c)"

definition get_successful_executions ::
  "ArtifactRecycler \<Rightarrow> mlmd \<Rightarrow> string \<Rightarrow> string \<Rightarrow> error + Execution list" where
  "get_successful_executions r s nid run_id =
     (case get_node_context r s nid of
        Inl e \<Rightarrow> Inl e
      | Inr node_context \<Rightarrow>
          (case get_pipeline_run_context r run_id of
             Inl e \<Rightarrow> Inl e
           | Inr base_run_context \<Rightarrow>
               (let all_associated_executions =
                      get_executions_associated_with_all_contexts s
                        [node_context, base_run_context, recycler_pipeline_context r];
                    prev_successful_executions =
                      filter is_execution_successful all_associated_executions
                in if prev_successful_executions = [] then
                     Inl (LookupError (''No previous successful executions found for node_id ''
                            @ nid @ '' in pipeline_run '' @ run_id))
                   else Inr (sort_executions_newest_to_oldest prev_successful_executions))))"

text \<open>
  The loop of \<^verbatim>\<open>_get_cached_execution_contexts\<close> over the contexts of the existing
  execution, which are read from the store once, before the loop.
\<close>

fun cached_execution_contexts_loop ::
  "Context list \<Rightarrow> ArtifactRecycler \<Rightarrow> mlmd \<Rightarrow> Context list \<times> ArtifactRecycler \<times> mlmd" where
  "cached_execution_contexts_loop [] r s = ([], r, s)"
| "cached_execution_contexts_loop (c # cs) r s =
     (if context_type c = recycler_pipeline_run_type_id r then
        (case get_or_register_pipeline_run_context r s (recycler_new_run_id r) of
           (c', r1, s1) \<Rightarrow>
             (case cached_execution_contexts_loop cs r1 s1 of
                (result, r2, s2) \<Rightarrow> (c' # result, r2, s2)))
      else
        (case cached_execution_contexts_loop cs r s of
           (result, r2, s2) \<Rightarrow> (c # result, r2, s2)))"

definition get_cached_execution_contexts ::
  "ArtifactRecycler \<Rightarrow> mlmd \<Rightarrow> Execution \<Rightarrow> Context list \<times> ArtifactRecycler \<times> mlmd" where
  "get_cached_execution_contexts r s existing_execution =
     cached_execution_contexts_loop
       (get_contexts_by_execution s (execution_id existing_execution)) r s"

definition cache_and_publish ::
  "ArtifactRecycler \<Rightarrow> mlmd \<Rightarrow> Execution \<Rightarrow> ArtifactRecycler \<times> mlmd" where
  "cache_and_publish r s existing_execution =
     (case get_cached_execution_contexts r s existing_execution of
        (cached_execution_contexts, r1, s1) \<Rightarrow>
          (let prev_cache_executions =
                 get_executions_associated_with_all_contexts s1 cached_execution_contexts
           in if prev_cache_executions = [] then
                (case register_execution s1 (execution_type_id existing_execution)
                        cached_execution_contexts of
                   (new_execution, s2) \<Rightarrow>
                     (r1, publish_cached_execution s2 cached_execution_contexts
                            (execution_id new_execution)
                            (get_artifacts_dict s2 (execution_id existing_execution))))
              else if last_known_state (last prev_cache_executions) = Execution_CACHED then
                (r1, s1)
              else
                (r1, publish_cached_execution s1 cached_execution_contexts
                       (execution_id (last prev_cache_executions))
                       (get_artifacts_dict s1 (execution_id existing_execution)))))"

definition put_parent_context ::
  "ArtifactRecycler \<Rightarrow> mlmd \<Rightarrow> string \<Rightarrow> (error + unit) \<times> ArtifactRecycler \<times> mlmd" where
  "put_parent_context r s base_run_id =
     (case get_pipeline_run_context r base_run_id of
        Inl e \<Rightarrow> (Inl e, r, s)
      | Inr base_run_context \<Rightarrow>
          (case get_or_register_pipeline_run_context r s (recycler_new_run_id r) of
             (new_run_context, r1, s1) \<Rightarrow>
               (Inr (), r1,
                put_parent_context_if_not_exists s1 (context_id base_run_context)
                  (context_id new_run_context))))"

text \<open>The loop \<^verbatim>\<open>for previous_execution in previous_executions\<close>.\<close>

fun cache_and_publish_all ::
  "Execution list \<Rightarrow> ArtifactRecycler \<Rightarrow> mlmd \<Rightarrow> ArtifactRecycler \<times> mlmd" where
  "cache_and_publish_all [] r s = (r, s)"
| "cache_and_publish_all (previous_execution # previous_executions) r s =
     (case cache_and_publish r s previous_execution of
        (r1, s1) \<Rightarrow> cache_and_publish_all previous_executions r1 s1)"

definition reuse_node_outputs ::
  "ArtifactRecycler \<Rightarrow> mlmd \<Rightarrow> string \<Rightarrow> string \<Rightarrow> (error + unit) \<times> ArtifactRecycler \<times> mlmd" where
  "reuse_node_outputs r s nid base_run_id =
     (case get_successful_executions r s nid base_run_id of
        Inl e \<Rightarrow> (Inl e, r, s)
      | Inr previous_executions \<Rightarrow>
          (case cache_and_publish_all previous_executions r s of
             (r1, s1) \<Rightarrow> (Inr (), r1, s1)))"

text \<open>The loop \<^verbatim>\<open>for node_id in nodes_to_reuse\<close>; the first error ends it.\<close>

fun reuse_all_nodes ::
  "string list \<Rightarrow> string \<Rightarrow> ArtifactRecycler \<Rightarrow> mlmd
     \<Rightarrow> (error + unit) \<times> ArtifactRecycler \<times> mlmd" where
  "reuse_all_nodes [] base_run_id r s = (Inr (), r, s)"
| "reuse_all_nodes (nid # nids) base_run_id r s =
     (case reuse_node_outputs r s nid base_run_id of
        (Inl e, r1, s1) \<Rightarrow> (Inl e, r1, s1)
      | (Inr _, r1, s1) \<Rightarrow> reuse_all_nodes nids base_run_id r1 s1)"

text \<open>
  \<^verbatim>\<open>reuse_pipeline_run_artifacts\<close>.  The result is what the call returns or raises,
  with the store as the call leaves it.  \<^verbatim>\<open>nodes_to_reuse\<close> is a Python set, iterated in
  an order the language does not fix: \<open>set_iteration\<close> gives that order.
\<close>

definition reuse_pipeline_run_artifacts ::
  "(string set \<Rightarrow> string list) \<Rightarrow> mlmd \<Rightarrow> Pipeline \<Rightarrow> string option \<Rightarrow> string option
     \<Rightarrow> (error + unit) \<times> mlmd" where
  "reuse_pipeline_run_artifacts set_iteration s marked_pipeline base_run_id new_run_id =
     (case get_validated_new_run_id marked_pipeline new_run_id of
        Inl e \<Rightarrow> (Inl e, s)
      | Inr validated_new_run_id \<Rightarrow>
     (case compute_nodes_to_reuse marked_pipeline of
        Inl e \<Rightarrow> (Inl e, s)
      | Inr nodes_to_reuse \<Rightarrow>
     (case ArtifactRecycler_init s (pipeline_info_id marked_pipeline) validated_new_run_id of
        Inl e \<Rightarrow> (Inl e, s)
      | Inr artifact_recycler \<Rightarrow>
     (case (if \<not> truthy base_run_id then get_latest_pipeline_run_id artifact_recycler
            else Inr (the base_run_id)) of
        Inl e \<Rightarrow> (Inl e, s)
      | Inr base \<Rightarrow>
     (case reuse_all_nodes (set_iteration nodes_to_reuse) base artifact_recycler s of
        (Inl e, r1, s1) \<Rightarrow> (Inl e, s1)
      | (Inr _, r1, s1) \<Rightarrow>
          (case put_parent_context r1 s1 base of (result, r2, s2) \<Rightarrow> (result, s2)))))))"

subsection \<open>Snapshot\<close>

text \<open>
  What \<^verbatim>\<open>snapshot\<close> can reach through a connection configuration: the store, and the
  number of connections opened to it so far.
\<close>

record metadata_connection =
  connections_opened :: nat
  connected_store :: mlmd

definition snapshot ::
  "(string set \<Rightarrow> string list) \<Rightarrow> PipelineNode \<Rightarrow> metadata_connection \<Rightarrow> Pipeline
     \<Rightarrow> (error + unit) \<times> metadata_connection" where
  "snapshot set_iteration node mlmd_connection_config pipeline =
     (case partial_run_option node of
        Run (Some chief_settings) \<Rightarrow>
          (case (case chief_settings of
                   BasePipelineRunStrategy base_run_id \<Rightarrow> Inr (Some base_run_id)
                 | LatestPipelineRunStrategy \<Rightarrow> Inr None
                 | StrategyNotSet \<Rightarrow>
                     Inl (ValueError ''artifact_reuse_strategy not set in ChiefSettings.'')) of
             Inl e \<Rightarrow> (Inl e, mlmd_connection_config)
           | Inr base_run_id \<Rightarrow>
               (case reuse_pipeline_run_artifacts set_iteration
                       (connected_store mlmd_connection_config) pipeline base_run_id None of
                  (result, s') \<Rightarrow>
                    (result,
                     \<lparr>connections_opened = Suc (connections_opened mlmd_connection_config),
                      connected_store = s'\<rparr>)))
      | _ \<Rightarrow> (Inr (), mlmd_connection_config))"

text \<open>
  What the accumulators of \<^verbatim>\<open>generate\<close> hold at every point of its loops: update tasks,
  execution tasks, and a finalize task if any.
\<close>

definition tick_inv :: "'w tick \<Rightarrow> bool" where
  "tick_inv t \<longleftrightarrow>
     list_all is_update_node_state_task (update_node_state_tasks t) \<and>
     list_all is_exec_node_task (exec_node_tasks t) \<and>
     (case finalize_pipeline_task t of None \<Rightarrow> True | Some x \<Rightarrow> is_finalize_pipeline_task x)"

section \<open>Stores the recycler is meant for\<close>

text \<open>
  Integrity of a store: context ids and execution ids are keys, and an execution is
  associated only with contexts of the store.
\<close>

definition well_formed_store :: "mlmd \<Rightarrow> bool" where
  "well_formed_store s \<longleftrightarrow>
     distinct (map context_id (store_contexts s)) \<and>
     distinct (map (\<lambda>x. execution_id (stored x)) (store_executions s)) \<and>
     (\<forall>x\<in>set (store_executions s). \<forall>k\<in>set (associated_context_ids x).
        k \<in> context_id ` set (store_contexts s))"

text \<open>An execution belongs to one node: it is associated with at most one node context.\<close>

definition single_node_context :: "mlmd \<Rightarrow> bool" where
  "single_node_context s \<longleftrightarrow>
     (\<forall>x\<in>set (store_executions s). \<forall>c\<in>set (store_contexts s). \<forall>c'\<in>set (store_contexts s).
        context_type c = NODE_CONTEXT_TYPE_NAME \<and> context_type c' = NODE_CONTEXT_TYPE_NAME \<and>
        context_id c \<in> set (associated_context_ids x) \<and>
        context_id c' \<in> set (associated_context_ids x) \<longrightarrow> c = c')"

text \<open>
  The store holds a successful execution associated with the pipeline context, the
  context of the node and the context of the run, as the specification words the triple.
\<close>

definition has_successful_execution :: "mlmd \<Rightarrow> string \<Rightarrow> string \<Rightarrow> string \<Rightarrow> bool" where
  "has_successful_execution s pipeline_name nid run_id \<longleftrightarrow>
     (\<exists>x\<in>set (store_executions s).
        is_execution_successful (stored x) \<and>
        (\<exists>c\<in>set (store_contexts s).
           context_type c = PIPELINE_CONTEXT_TYPE_NAME \<and> context_name c = pipeline_name \<and>
           context_id c \<in> set (associated_context_ids x)) \<and>
        (\<exists>c\<in>set (store_contexts s).
           context_type c = NODE_CONTEXT_TYPE_NAME \<and>
           context_name c = node_context_name pipeline_name nid \<and>
           context_id c \<in> set (associated_context_ids x)) \<and>
        (\<exists>c\<in>set (store_contexts s).
           context_type c = PIPELINE_RUN_CONTEXT_TYPE_NAME \<and> context_name c = run_id \<and>
           context_id c \<in> set (associated_context_ids x)))"

text \<open>
  The base run that \<^verbatim>\<open>reuse_pipeline_run_artifacts\<close> works from: the one given, or else
  the latest previous run that the recycler finds.
\<close>

definition resolved_base_run_id ::
  "mlmd \<Rightarrow> Pipeline \<Rightarrow> string option \<Rightarrow> string option \<Rightarrow> error + string" where
  "resolved_base_run_id s marked_pipeline base_run_id new_run_id =
     (case get_validated_new_run_id marked_pipeline new_run_id of
        Inl e \<Rightarrow> Inl e
      | Inr validated_new_run_id \<Rightarrow>
     (case ArtifactRecycler_init s (pipeline_info_id marked_pipeline) validated_new_run_id of
        Inl e \<Rightarrow> Inl e
      | Inr artifact_recycler \<Rightarrow>
          if \<not> truthy base_run_id then get_latest_pipeline_run_id artifact_recycler
          else Inr (the base_run_id)))"

text \<open>
  What \<^verbatim>\<open>_cache_and_publish\<close> does to the store once the context \<open>nr\<close> of the new run is
  registered and held by the dictionary of the recycler: the contexts of the existing
  execution with \<open>nr\<close> in the place of every run context, then the three branches.
\<close>

definition replace_run_context :: "Context \<Rightarrow> Context \<Rightarrow> Context" where
  "replace_run_context nr c = (if context_type c = PIPELINE_RUN_CONTEXT_TYPE_NAME then nr else c)"

definition recycled_contexts :: "Context \<Rightarrow> mlmd \<Rightarrow> nat \<Rightarrow> Context list" where
  "recycled_contexts nr s eid = map (replace_run_context nr) (get_contexts_by_execution s eid)"

definition recycle :: "Context \<Rightarrow> mlmd \<Rightarrow> Execution \<Rightarrow> mlmd" where
  "recycle nr s existing_execution =
     (let cached_execution_contexts = recycled_contexts nr s (execution_id existing_execution);
          prev_cache_executions =
            get_executions_associated_with_all_contexts s cached_execution_contexts
      in if prev_cache_executions = [] then
           (case register_execution s (execution_type_id existing_execution)
                   cached_execution_contexts of
              (new_execution, s2) \<Rightarrow>
                publish_cached_execution s2 cached_execution_contexts
                  (execution_id new_execution)
                  (get_artifacts_dict s2 (execution_id existing_execution)))
         else if last_known_state (last prev_cache_executions) = Execution_CACHED then s
         else publish_cached_execution s cached_execution_contexts
                (execution_id (last prev_cache_executions))
                (get_artifacts_dict s (execution_id existing_execution)))"

text \<open>
  The recycler agrees with the store: its pipeline context is the one of the store, its
  dictionary holds run contexts of the store under their names, and it knows every run
  name of the store.
\<close>

definition recycler_inv :: "ArtifactRecycler \<Rightarrow> mlmd \<Rightarrow> bool" where
  "recycler_inv r s \<longleftrightarrow>
     recycler_pipeline_run_type_id r = PIPELINE_RUN_CONTEXT_TYPE_NAME \<and>
     recycler_pipeline_context r \<in> set (store_contexts s) \<and>
     context_type (recycler_pipeline_context r) = PIPELINE_CONTEXT_TYPE_NAME \<and>
     context_name (recycler_pipeline_context r) = recycler_pipeline_name r \<and>
     (\<forall>k c. map_of (recycler_pipeline_run_contexts r) k = Some c \<longrightarrow>
        c \<in> set (store_contexts s) \<and> context_type c = PIPELINE_RUN_CONTEXT_TYPE_NAME \<and>
        context_name c = k) \<and>
     (\<forall>c\<in>set (store_contexts s). context_type c = PIPELINE_RUN_CONTEXT_TYPE_NAME \<longrightarrow>
        map_of (recycler_pipeline_run_contexts r) (context_name c) \<noteq> None)"

definition registered :: "ArtifactRecycler \<Rightarrow> mlmd \<Rightarrow> Context \<Rightarrow> bool" where
  "registered r s nr \<longleftrightarrow>
     recycler_inv r s \<and>
     map_of (recycler_pipeline_run_contexts r) (recycler_new_run_id r) = Some nr"

text \<open>
  The execution with the given id is in the store, associated with the node context of the
  given name and with a run context: what \<^verbatim>\<open>_get_successful_executions\<close> hands to
  \<^verbatim>\<open>_cache_and_publish\<close>.
\<close>

definition recyclable :: "mlmd \<Rightarrow> string \<Rightarrow> nat \<Rightarrow> bool" where
  "recyclable s cname eid \<longleftrightarrow>
     (\<exists>x\<in>set (store_executions s).
        execution_id (stored x) = eid \<and>
        (\<exists>c\<in>set (store_contexts s).
           context_type c = NODE_CONTEXT_TYPE_NAME \<and> context_name c = cname \<and>
           context_id c \<in> set (associated_context_ids x)) \<and>
        (\<exists>c\<in>set (store_contexts s).
           context_type c = PIPELINE_RUN_CONTEXT_TYPE_NAME \<and>
           context_id c \<in> set (associated_context_ids x)))"

text \<open>
  An execution is settled when recycling it changes nothing: an execution associated with
  all its recycled contexts exists, and the last such execution is cached.
\<close>

definition settled :: "Context \<Rightarrow> mlmd \<Rightarrow> nat \<Rightarrow> bool" where
  "settled nr s eid \<longleftrightarrow>
     (let prev = filter (associated_with_all (recycled_contexts nr s eid)) (store_executions s)
      in prev \<noteq> [] \<and> last_known_state (stored (last prev)) = Execution_CACHED)"

section \<open>Concrete pipelines and collaborators\<close>

text \<open>
  Small concrete inputs on which the definitions above are run.  The outside state of the
  example generator is the list of the writes made so far, oldest first.
\<close>

definition example_node :: "string \<Rightarrow> string list \<Rightarrow> string list \<Rightarrow> PipelineNode" where
  "example_node i ups downs =
     \<lparr>node_info_id = i, node_info_type = ''Type'', inputs = [], upstream_nodes = ups,
      downstream_nodes = downs, enable_cache = False, partial_run_option = PartialRunNotSet\<rparr>"

definition example_channel :: "string \<Rightarrow> Channel" where
  "example_channel producer = \<lparr>producer_node_query_id = producer, output_key = ''out''\<rparr>"

definition example_pipeline :: Pipeline where
  "example_pipeline =
     \<lparr>pipeline_info_id = ''p'',
      nodes = [pipeline_node (example_node ''A'' [] [''B'']),
               pipeline_node (example_node ''B'' [''A''] [])],
      execution_mode = SYNC, pipeline_run_id = Some ''run1'', executor_specs = None\<rparr>"

text \<open>A \<open>\<rightarrow>\<close> B \<open>\<rightarrow>\<close> C, each edge a data dependency.\<close>

definition abc_node_B :: PipelineNode where
  "abc_node_B = (example_node ''B'' [''A''] [''C''])\<lparr>inputs := [(''x'', [example_channel ''A''])]\<rparr>"

definition abc_node_C :: PipelineNode where
  "abc_node_C = (example_node ''C'' [''B''] [])\<lparr>inputs := [(''x'', [example_channel ''B''])]\<rparr>"

definition abc_pipeline :: Pipeline where
  "abc_pipeline =
     \<lparr>pipeline_info_id = ''p'',
      nodes = [pipeline_node (example_node ''A'' [] [''B'']),
               pipeline_node abc_node_B, pipeline_node abc_node_C],
      execution_mode = SYNC, pipeline_run_id = Some ''run2'', executor_specs = None\<rparr>"

text \<open>That pipeline marked from B to C with the default chief settings.\<close>

definition abc_marked :: Pipeline where
  "abc_marked =
     abc_pipeline\<lparr>nodes :=
       [pipeline_node ((example_node ''A'' [] [''B''])\<lparr>partial_run_option := Skip True\<rparr>),
        pipeline_node (abc_node_B\<lparr>partial_run_option := Run (Some LatestPipelineRunStrategy)\<rparr>),
        pipeline_node (abc_node_C\<lparr>partial_run_option := Run None\<rparr>)]\<rparr>"

text \<open>The same pipeline marked from C to C: A and B are skipped, C is the chief.\<close>

definition abc_marked_last :: Pipeline where
  "abc_marked_last =
     abc_pipeline\<lparr>nodes :=
       [pipeline_node ((example_node ''A'' [] [''B''])\<lparr>partial_run_option := Skip False\<rparr>),
        pipeline_node (abc_node_B\<lparr>partial_run_option := Skip True\<rparr>),
        pipeline_node (abc_node_C\<lparr>partial_run_option := Run (Some LatestPipelineRunStrategy)\<rparr>)]\<rparr>"

text \<open>A \<open>\<rightarrow>\<close> B where B already carries chief settings from an earlier marking.\<close>

definition premarked_pipeline :: Pipeline where
  "premarked_pipeline =
     \<lparr>pipeline_info_id = ''p'',
      nodes = [pipeline_node (example_node ''A'' [] [''B'']),
               pipeline_node ((example_node ''B'' [''A''] [])
                 \<lparr>partial_run_option := Run (Some LatestPipelineRunStrategy)\<rparr>)],
      execution_mode = SYNC, pipeline_run_id = Some ''run2'', executor_specs = None\<rparr>"

definition example_cache_context :: Context where
  "example_cache_context =
     \<lparr>context_id = 99, context_type = ''cache'', context_name = ''fingerprint'',
      create_time_since_epoch = 0\<rparr>"

definition example_pipeline_context :: Context where
  "example_pipeline_context =
     \<lparr>context_id = 1, context_type = ''pipeline'', context_name = ''p'',
      create_time_since_epoch = 0\<rparr>"

definition example_resolved_info :: ResolvedInfo where
  "example_resolved_info =
     \<lparr>resolved_contexts = [example_pipeline_context],
      resolved_exec_properties = [], resolved_input_artifacts = Some []\<rparr>"

definition example_execution :: "nat \<Rightarrow> ExecutionState \<Rightarrow> Properties \<Rightarrow> Execution" where
  "example_execution i st props =
     \<lparr>execution_id = i, execution_type_id = ''Type'', last_known_state = st,
      custom_properties = props\<rparr>"

definition example_externals ::
  "(string \<Rightarrow> NodeState) \<Rightarrow> (string \<Rightarrow> Execution list) \<Rightarrow> (string \<Rightarrow> ResolvedInfo option)
     \<Rightarrow> ArtifactDict option \<Rightarrow> string list externals" where
  "example_externals node_states executions resolved cached =
     \<lparr>topsorted_layers_fn = (\<lambda>ns. Inr (map (\<lambda>n. [n]) ns)),
      cache_get_fn = (\<lambda>w key. (False, w)),
      cache_set_fn = (\<lambda>w key. w @ [''cache_set '' @ uid_node_id (snd key)]),
      get_node_state_fn = (\<lambda>w uid. node_states (uid_node_id uid)),
      is_pure_service_node_fn = (\<lambda>w i. False),
      is_mixed_service_node_fn = (\<lambda>w i. False),
      ensure_node_services_fn = (\<lambda>w i. (ServiceStatus_RUNNING, w @ [''ensure_node_services''])),
      is_task_id_tracked_fn = (\<lambda>w i. False),
      get_executions_fn = (\<lambda>w node. executions (node_info_id node)),
      task_from_execution_fn = (\<lambda>w p node e.
        (\<lparr>task_node_uid = NodeUid_from_pipeline_node p node,
          task_execution_id = execution_id e, task_contexts = [], task_input_artifacts = [],
          task_exec_properties = [], task_output_artifacts = [],
          task_executor_output_uri = [], task_stateful_working_dir = [], task_pipeline = p\<rparr>,
         w @ [''task_from_execution''])),
      generate_resolved_info_fn = (\<lambda>w node.
        (resolved (node_info_id node), w @ [''generate_resolved_info''])),
      register_execution_fn = (\<lambda>w ty ctxs ia props.
        (\<lparr>execution_id = 7, execution_type_id = ty, last_known_state = Execution_ACTIVE,
          custom_properties = []\<rparr>, w @ [''register_execution''])),
      generate_output_artifacts_fn = (\<lambda>p node eid. []),
      get_executor_output_uri_fn = (\<lambda>p node eid. ''executor_output''),
      get_stateful_working_directory_fn = (\<lambda>p node eid. ''stateful_working_dir''),
      get_cache_context_fn = (\<lambda>w node pinfo spec ia oa props.
        (example_cache_context, w @ [''get_cache_context''])),
      get_cached_outputs_fn = (\<lambda>w c. cached),
      publish_cached_execution_fn = (\<lambda>w ctxs eid oa. w @ [''publish_cached_execution'']),
      record_state_change_time_fn = (\<lambda>w. w @ [''record_state_change_time'']),
      make_output_dirs_fn = (\<lambda>w oa. w @ [''make_output_dirs'']),
      str_NodeUid_fn = (\<lambda>uid. uid_node_id uid)\<rparr>"

definition example_generator ::
  "(string \<Rightarrow> NodeState) \<Rightarrow> (string \<Rightarrow> Execution list) \<Rightarrow> (string \<Rightarrow> ResolvedInfo option)
     \<Rightarrow> ArtifactDict option \<Rightarrow> string list generator" where
  "example_generator node_states executions resolved cached =
     externals.extend (example_externals node_states executions resolved cached)
       (generator.fields example_pipeline ''p'' ''run1'')"

definition failed_execution :: Execution where
  "failed_execution =
     example_execution 2 Execution_FAILED [(EXECUTION_ERROR_MSG_KEY, ''boom'')]"

definition active_execution :: Execution where
  "active_execution = example_execution 1 Execution_ACTIVE []"

definition node_A :: PipelineNode where
  "node_A = example_node ''A'' [] [''B'']"

definition node_B :: PipelineNode where
  "node_B = example_node ''B'' [''A''] []"

text \<open>
  A store after one full run \<open>run1\<close> of A \<open>\<rightarrow>\<close> B \<open>\<rightarrow>\<close> C: one pipeline context, one run
  context, three node contexts, and one successful execution of each node.
\<close>

definition example_context :: "nat \<Rightarrow> string \<Rightarrow> string \<Rightarrow> Context" where
  "example_context i ty name =
     \<lparr>context_id = i, context_type = ty, context_name = name, create_time_since_epoch = i\<rparr>"

definition example_stored :: "nat \<Rightarrow> ExecutionState \<Rightarrow> nat list \<Rightarrow> stored_execution" where
  "example_stored i st ctxs =
     \<lparr>stored = example_execution i st [], associated_context_ids = ctxs,
      output_events = [(''out'', [\<lparr>artifact_id = 100 + i, artifact_uri = ''uri''\<rparr>])]\<rparr>"

definition example_store :: mlmd where
  "example_store =
     \<lparr>store_contexts =
        [example_context 1 ''pipeline'' ''p'', example_context 2 ''pipeline_run'' ''run1'',
         example_context 3 ''node'' ''p.A'', example_context 4 ''node'' ''p.B'',
         example_context 5 ''node'' ''p.C''],
      store_executions =
        [example_stored 10 Execution_SUCCESSFUL [1, 2, 3],
         example_stored 11 Execution_SUCCESSFUL [1, 2, 4],
         example_stored 12 Execution_SUCCESSFUL [1, 2, 5]],
      store_parent_contexts = [],
      store_now = 50\<rparr>"

text \<open>The same store when the execution of A in \<open>run1\<close> had failed.\<close>

definition example_store_failed_A :: mlmd where
  "example_store_failed_A =
     example_store\<lparr>store_executions :=
       [example_stored 10 Execution_FAILED [1, 2, 3],
        example_stored 11 Execution_SUCCESSFUL [1, 2, 4],
        example_stored 12 Execution_SUCCESSFUL [1, 2, 5]]\<rparr>"

text \<open>An order of iteration over a set of node ids of the example pipelines.\<close>

definition example_iteration :: "string set \<Rightarrow> string list" where
  "example_iteration S = filter (\<lambda>i. i \<in> S) [''C'', ''B'', ''A'']"

section \<open>Properties of the partial-run marker\<close>

subsection \<open>The traversal computes reachability\<close>

lemma closed_rtrancl_image:
  assumes "\<forall>x\<in>R. E `` {x} \<subseteq> R" and "S \<subseteq> R"
  shows "E\<^sup>* `` S \<subseteq> R"
proof
  fix y assume "y \<in> E\<^sup>* `` S"
  then obtain x where x: "x \<in> S" and xy: "(x, y) \<in> E\<^sup>*" by auto
  from xy show "y \<in> R"
  proof (induction rule: rtrancl_induct)
    case base
    from x assms(2) show ?case by auto
  next
    case (step y z)
    with assms(1) show ?case by auto
  qed
qed

lemma traverse_stack_correct:
  assumes "Range (map_edges d nm) \<subseteq> fst ` set nm"
    and "set stack \<subseteq> fst ` set nm"
    and "\<forall>x\<in>result. map_edges d nm `` {x} \<subseteq> result \<union> set stack"
  shows "\<exists>R. traverse_stack nm d stack result = Inr R \<and> result \<union> set stack \<subseteq> R \<and>
             R \<subseteq> result \<union> (map_edges d nm)\<^sup>* `` set stack \<and>
             (\<forall>x\<in>R. map_edges d nm `` {x} \<subseteq> R)"
  using assms
proof (induction nm d stack result rule: traverse_stack.induct)
  case (1 nm direction result)
  then show ?case by simp
next
  case (2 nm direction cur stack result)
  let ?E = "map_edges direction nm"
  show ?case
  proof (cases "cur \<in> result")
    case True
    have inv: "\<forall>x\<in>result. ?E `` {x} \<subseteq> result \<union> set stack"
      using 2(5) True by auto
    from 2(1)[OF True 2(3) _ inv] 2(4)
    obtain R where R: "traverse_stack nm direction stack result = Inr R"
      "result \<union> set stack \<subseteq> R" "R \<subseteq> result \<union> ?E\<^sup>* `` set stack"
      "\<forall>x\<in>R. ?E `` {x} \<subseteq> R" by auto
    have "?E\<^sup>* `` set stack \<subseteq> ?E\<^sup>* `` set (cur # stack)" by auto
    with R True show ?thesis by auto
  next
    case False
    from 2(4) have "cur \<in> fst ` set nm" by simp
    then obtain node where node: "map_of nm cur = Some node"
      by (metis domIff dom_map_of_conv_image_fst not_Some_eq)
    have nb: "set (neighbours direction node) = ?E `` {cur}"
      using node by (auto simp: map_edges_def)
    have st: "set (rev (neighbours direction node) @ stack) \<subseteq> fst ` set nm"
      using 2(3) 2(4) nb by auto
    have inv: "\<forall>x\<in>insert cur result. ?E `` {x}
                 \<subseteq> insert cur result \<union> set (rev (neighbours direction node) @ stack)"
      using 2(5) nb by auto
    from 2(2)[OF False node 2(3) st inv]
    obtain R where R: "traverse_stack nm direction (rev (neighbours direction node) @ stack)
                         (insert cur result) = Inr R"
      "insert cur result \<union> set (rev (neighbours direction node) @ stack) \<subseteq> R"
      "R \<subseteq> insert cur result \<union> ?E\<^sup>* `` set (rev (neighbours direction node) @ stack)"
      "\<forall>x\<in>R. ?E `` {x} \<subseteq> R" by auto
    have "?E\<^sup>* `` set (rev (neighbours direction node) @ stack) \<subseteq> ?E\<^sup>* `` set (cur # stack)"
    proof
      fix y assume "y \<in> ?E\<^sup>* `` set (rev (neighbours direction node) @ stack)"
      then obtain x where x: "x \<in> set (neighbours direction node) \<union> set stack"
        and xy: "(x, y) \<in> ?E\<^sup>*" by auto
      from x show "y \<in> ?E\<^sup>* `` set (cur # stack)"
      proof
        assume "x \<in> set (neighbours direction node)"
        with nb have "(cur, x) \<in> ?E" by auto
        from this xy have "(cur, y) \<in> ?E\<^sup>*" by (rule converse_rtrancl_into_rtrancl)
        then show ?thesis by auto
      next
        assume "x \<in> set stack"
        with xy show ?thesis by auto
      qed
    qed
    moreover have "cur \<in> ?E\<^sup>* `` set (cur # stack)" by auto
    ultimately have up: "R \<subseteq> result \<union> ?E\<^sup>* `` set (cur # stack)"
      using R(3) by blast
    have lo: "result \<union> set (cur # stack) \<subseteq> R" using R(2) by auto
    have "traverse_stack nm direction (cur # stack) result = Inr R"
      using R(1) False node by simp
    with up lo R(4) show ?thesis by blast
  qed
qed

lemma traverse_from_correct:
  assumes "Range (map_edges d nm) \<subseteq> fst ` set nm"
    and "set starts \<subseteq> fst ` set nm"
    and "\<forall>x\<in>result. map_edges d nm `` {x} \<subseteq> result"
  shows "traverse_from nm d starts result = Inr (result \<union> (map_edges d nm)\<^sup>* `` set starts)"
  using assms
proof (induction starts arbitrary: result)
  case Nil
  then show ?case by simp
next
  case (Cons s starts)
  let ?E = "map_edges d nm"
  have "\<forall>x\<in>result. ?E `` {x} \<subseteq> result \<union> set [s]" using Cons.prems(3) by auto
  from traverse_stack_correct[OF Cons.prems(1) _ this] Cons.prems(2)
  obtain R where R: "traverse_stack nm d [s] result = Inr R" "result \<union> set [s] \<subseteq> R"
    "R \<subseteq> result \<union> ?E\<^sup>* `` set [s]" "\<forall>x\<in>R. ?E `` {x} \<subseteq> R" by auto
  have "?E\<^sup>* `` {s} \<subseteq> R"
    using closed_rtrancl_image[OF R(4), of "{s}"] R(2) by auto
  with R(2,3) have Req: "R = result \<union> ?E\<^sup>* `` {s}" by auto
  from Cons.IH[OF Cons.prems(1) _ R(4)] Cons.prems(2)
  have "traverse_from nm d starts R = Inr (R \<union> ?E\<^sup>* `` set starts)" by auto
  with R(1) Req show ?case by auto
qed

lemma traverse_correct:
  assumes "Range (map_edges d nm) \<subseteq> fst ` set nm" and "set starts \<subseteq> fst ` set nm"
  shows "traverse nm d starts = Inr ((map_edges d nm)\<^sup>* `` set starts)"
  using traverse_from_correct[OF assms, of "{}"] by (simp add: traverse_def)


lemma ordered_dict_set_append:
  "k \<notin> fst ` set kvs \<Longrightarrow> ordered_dict_set k v kvs = kvs @ [(k, v)]"
  by (induction kvs) auto

lemma foldl_ordered_dict_set:
  "distinct (map fst acc @ map node_id_of xs) \<Longrightarrow>
   foldl (\<lambda>result pn. ordered_dict_set (node_id_of pn) (get_pipeline_node pn) result) acc xs
     = acc @ map (\<lambda>pn. (node_id_of pn, get_pipeline_node pn)) xs"
proof (induction xs arbitrary: acc)
  case Nil
  then show ?case by simp
next
  case (Cons x xs)
  have "node_id_of x \<notin> fst ` set acc" using Cons.prems by auto
  then have step: "ordered_dict_set (node_id_of x) (get_pipeline_node x) acc
                     = acc @ [(node_id_of x, get_pipeline_node x)]"
    by (rule ordered_dict_set_append)
  have "distinct (map fst (acc @ [(node_id_of x, get_pipeline_node x)]) @ map node_id_of xs)"
    using Cons.prems by auto
  from Cons.IH[OF this] step show ?case by simp
qed

lemma make_ordered_node_map_distinct:
  assumes "distinct (map node_id_of (nodes p))"
  shows "make_ordered_node_map p = map (\<lambda>pn. (node_id_of pn, get_pipeline_node pn)) (nodes p)"
  using foldl_ordered_dict_set[of "[]" "nodes p"] assms by (simp add: make_ordered_node_map_def)

lemma node_map_keys:
  assumes "distinct (map node_id_of (nodes p))"
  shows "map fst (make_ordered_node_map p) = map node_id_of (nodes p)"
  by (simp add: make_ordered_node_map_distinct[OF assms] comp_def)

lemma node_map_edges:
  assumes "distinct (map node_id_of (nodes p))"
  shows "map_edges d (make_ordered_node_map p) = edges d p"
proof -
  let ?nm = "make_ordered_node_map p"
  have dk: "distinct (map fst ?nm)" using assms by (simp add: node_map_keys)
  have "map_of ?nm a = Some n \<longleftrightarrow>
          (\<exists>pn\<in>set (nodes p). node_id_of pn = a \<and> get_pipeline_node pn = n)" for a n
    unfolding map_of_eq_Some_iff[OF dk]
    by (auto simp: make_ordered_node_map_distinct[OF assms])
  then show ?thesis by (auto simp: map_edges_def edges_def)
qed

lemma upstream_check_closed:
  "upstream_check xs V = Inr () \<Longrightarrow>
   \<forall>pn\<in>set xs. set (upstream_nodes (get_pipeline_node pn)) \<subseteq> V \<union> node_id_of ` set xs"
proof (induction xs arbitrary: V)
  case Nil
  then show ?case by simp
next
  case (Cons x xs)
  from Cons.prems have none: "find (\<lambda>u. u \<notin> V) (upstream_nodes (get_pipeline_node x)) = None"
    and rest: "upstream_check xs (insert (node_id_of x) V) = Inr ()"
    by (auto split: option.splits)
  from none have "set (upstream_nodes (get_pipeline_node x)) \<subseteq> V"
    by (auto simp: find_None_iff)
  with Cons.IH[OF rest] show ?case by auto
qed

lemma downstream_check_closed:
  "downstream_check xs V = Inr () \<Longrightarrow>
   \<forall>pn\<in>set xs. set (downstream_nodes (get_pipeline_node pn)) \<subseteq> V \<union> node_id_of ` set xs"
proof (induction xs arbitrary: V)
  case Nil
  then show ?case by simp
next
  case (Cons x xs)
  from Cons.prems have none: "find (\<lambda>u. u \<notin> V) (downstream_nodes (get_pipeline_node x)) = None"
    and rest: "downstream_check xs (insert (node_id_of x) V) = Inr ()"
    by (auto split: option.splits)
  from none have "set (downstream_nodes (get_pipeline_node x)) \<subseteq> V"
    by (auto simp: find_None_iff)
  with Cons.IH[OF rest] show ?case by auto
qed

lemma sorted_edges_closed:
  assumes "ensure_topologically_sorted p = Inr ()"
  shows "Range (edges d p) \<subseteq> node_ids p"
proof -
  from assms have up: "upstream_check (nodes p) {} = Inr ()"
    and down: "downstream_check (rev (nodes p)) {} = Inr ()"
    by (auto simp: ensure_topologically_sorted_def split: sum.splits)
  show ?thesis
  proof (cases d)
    case UPSTREAM
    with upstream_check_closed[OF up] show ?thesis
      by (auto simp: edges_def node_ids_def neighbours_def)
  next
    case DOWNSTREAM
    with downstream_check_closed[OF down] show ?thesis
      by (auto simp: edges_def node_ids_def neighbours_def)
  qed
qed

lemma reachable_subset_ids:
  assumes "Range (edges d p) \<subseteq> node_ids p" and "S \<subseteq> node_ids p"
  shows "reachable d p S \<subseteq> node_ids p"
  unfolding reachable_def
  by (rule closed_rtrancl_image) (use assms in auto)

lemma traverse_pipeline:
  assumes "distinct (map node_id_of (nodes p))" and "ensure_topologically_sorted p = Inr ()"
  shows "traverse (make_ordered_node_map p) d (filter f (map fst (make_ordered_node_map p)))
           = Inr (reachable d p {i \<in> node_ids p. f i})"
proof -
  let ?nm = "make_ordered_node_map p"
  have keys: "fst ` set ?nm = node_ids p"
    using node_map_keys[OF assms(1)] by (metis node_ids_def set_map)
  have r: "Range (map_edges d ?nm) \<subseteq> fst ` set ?nm"
    using sorted_edges_closed[OF assms(2), of d] by (simp add: node_map_edges[OF assms(1)] keys)
  have s: "set (filter f (map fst ?nm)) \<subseteq> fst ` set ?nm" by auto
  have "set (filter f (map fst ?nm)) = {i \<in> node_ids p. f i}"
    using keys by auto
  with traverse_correct[OF r s] show ?thesis
    by (simp add: reachable_def node_map_edges[OF assms(1)])
qed

lemma ordered_dict_set_keys: "fst ` set (ordered_dict_set k v kvs) = insert k (fst ` set kvs)"
proof (induction kvs)
  case Nil
  then show ?case by simp
next
  case (Cons a kvs)
  obtain k' v' where a: "a = (k', v')" by (cases a)
  show ?case using Cons.IH unfolding a by (cases "k' = k") auto
qed

lemma fix_nodes_loop_keys:
  "fst ` set (fst (fix_nodes_loop xs keep acc)) = fst ` set (fst acc) \<union> fst ` set xs"
proof (induction xs keep acc rule: fix_nodes_loop.induct)
  case (1 keep acc)
  then show ?case by simp
next
  case (2 node_id node rest keep fixed_nodes merged)
  obtain n' ex where h: "handle_missing_inputs (remove_dangling_downstream_nodes node keep) keep
                           = (n', ex)" by (cases "handle_missing_inputs (remove_dangling_downstream_nodes node keep) keep")
  from 2[OF refl h[symmetric] refl] h show ?case
    by (simp add: ordered_dict_set_keys)
qed

lemma fix_nodes_keys: "set (map fst (fst (fix_nodes nm))) = set (map fst nm)"
  using fix_nodes_loop_keys[of nm "set (map fst nm)" "([], {})"] by (simp add: fix_nodes_def)

lemma mark_nodes_loop_ids:
  "map node_id_of (mark_nodes_loop xs inc exc cs b) = map node_id_of xs"
  by (induction xs arbitrary: b) (auto simp: Let_def node_id_of_def)

lemma mark_nodes_loop_marks:
  "\<forall>pn\<in>set (mark_nodes_loop xs inc exc cs b).
     (node_id_of pn \<in> inc \<longrightarrow> HasField_run (partial_run_option (get_pipeline_node pn))) \<and>
     (node_id_of pn \<notin> inc \<longrightarrow>
        partial_run_option (get_pipeline_node pn) = Skip (node_id_of pn \<in> exc))"
proof (induction xs arbitrary: b)
  case Nil
  then show ?case by simp
next
  case (Cons x xs)
  have r: "HasField_run (run_SetInParent opt)" for opt by (cases opt) auto
  show ?case using Cons.IH
    by (auto simp: Let_def node_id_of_def r run_chief_settings_CopyFrom_def
        set_skip_child_in_partial_run_def)
qed

text \<open>
  Claim C5.  For a pipeline that passes the three checks of \<^verbatim>\<open>mark_pipeline\<close> (SYNC, no
  sub-pipeline, topologically sorted) and whose node ids are unique, \<^verbatim>\<open>mark_pipeline\<close>
  returns, keeps the node sequence, and the ids of the nodes it marks \<^verbatim>\<open>run\<close> are exactly
  the ids reachable downstream from the nodes selected by \<open>from_nodes\<close> that are also
  reachable upstream from the nodes selected by \<open>to_nodes\<close> (reachability is reflexive);
  every other node is marked \<^verbatim>\<open>skip\<close>.
\<close>

theorem mark_pipeline_run_set:
  assumes "ensure_sync_pipeline p = Inr ()"
    and "ensure_no_subpipeline_nodes p = Inr ()"
    and "ensure_topologically_sorted p = Inr ()"
    and "distinct (map node_id_of (nodes p))"
  shows "\<exists>p'. mark_pipeline p from_nodes to_nodes cs = Inr p' \<and>
           map node_id_of (nodes p') = map node_id_of (nodes p) \<and>
           {node_id_of pn | pn. pn \<in> set (nodes p') \<and>
              HasField_run (partial_run_option (get_pipeline_node pn))}
             = reachable DOWNSTREAM p {i \<in> node_ids p. from_nodes i} \<inter>
               reachable UPSTREAM p {i \<in> node_ids p. to_nodes i} \<and>
           (\<forall>pn\<in>set (nodes p').
              node_id_of pn \<notin> reachable DOWNSTREAM p {i \<in> node_ids p. from_nodes i} \<inter>
                               reachable UPSTREAM p {i \<in> node_ids p. to_nodes i}
              \<longrightarrow> HasField_skip (partial_run_option (get_pipeline_node pn)))"
proof -
  let ?nm = "make_ordered_node_map p"
  let ?D = "reachable DOWNSTREAM p {i \<in> node_ids p. from_nodes i}"
  let ?U = "reachable UPSTREAM p {i \<in> node_ids p. to_nodes i}"
  have keys: "fst ` set ?nm = node_ids p"
    using node_map_keys[OF assms(4)] by (metis node_ids_def set_map)
  have tu: "traverse ?nm UPSTREAM (filter to_nodes (map fst ?nm)) = Inr ?U"
    by (rule traverse_pipeline[OF assms(4) assms(3)])
  have td: "traverse ?nm DOWNSTREAM (filter from_nodes (map fst ?nm)) = Inr ?D"
    by (rule traverse_pipeline[OF assms(4) assms(3)])
  have Usub: "?U \<subseteq> node_ids p"
    by (rule reachable_subset_ids[OF sorted_edges_closed[OF assms(3)]]) auto
  define nm' where "nm' = filter (\<lambda>(node_id, node). node_id \<in> ?U \<inter> ?D) ?nm"
  have f: "filter_node_map ?nm (filter from_nodes (map fst ?nm)) (filter to_nodes (map fst ?nm))
             = Inr nm'"
    unfolding filter_node_map_def tu td nm'_def by simp
  have "fst ` set nm' = fst ` set ?nm \<inter> (?U \<inter> ?D)"
    unfolding nm'_def by force
  then have k': "set (map fst nm') = ?D \<inter> ?U"
    using keys Usub by auto
  obtain nm'' ex where fx: "fix_nodes nm' = (nm'', ex)" by (cases "fix_nodes nm'")
  have k'': "set (map fst nm'') = ?D \<inter> ?U"
    using fix_nodes_keys[of nm'] fx k' by simp
  let ?p' = "mark_nodes_and_nominate_chief p (set (map fst nm'')) ex cs"
  have mp: "mark_pipeline p from_nodes to_nodes cs = Inr ?p'"
    by (simp add: mark_pipeline_def assms(1,2,3) Let_def f fx)
  have ids: "map node_id_of (nodes ?p') = map node_id_of (nodes p)"
    by (simp add: mark_nodes_and_nominate_chief_def mark_nodes_loop_ids)
  have marks: "\<forall>pn\<in>set (nodes ?p').
     (node_id_of pn \<in> ?D \<inter> ?U \<longrightarrow> HasField_run (partial_run_option (get_pipeline_node pn))) \<and>
     (node_id_of pn \<notin> ?D \<inter> ?U \<longrightarrow>
        partial_run_option (get_pipeline_node pn) = Skip (node_id_of pn \<in> ex))"
    using mark_nodes_loop_marks[of "nodes p" "set (map fst nm'')" ex cs False]
    unfolding k'' by (simp add: mark_nodes_and_nominate_chief_def)
  have idset: "node_id_of ` set (nodes ?p') = node_ids p"
    using ids by (metis node_ids_def set_map)
  have runset: "{node_id_of pn | pn. pn \<in> set (nodes ?p') \<and>
              HasField_run (partial_run_option (get_pipeline_node pn))} = ?D \<inter> ?U"
  proof (intro equalityI subsetI)
    fix i assume "i \<in> {node_id_of pn | pn. pn \<in> set (nodes ?p') \<and>
              HasField_run (partial_run_option (get_pipeline_node pn))}"
    then obtain pn where pn: "pn \<in> set (nodes ?p')" "i = node_id_of pn"
      "HasField_run (partial_run_option (get_pipeline_node pn))" by auto
    show "i \<in> ?D \<inter> ?U"
    proof (rule ccontr)
      assume "i \<notin> ?D \<inter> ?U"
      with marks pn(1,2) have "partial_run_option (get_pipeline_node pn) = Skip (i \<in> ex)"
        by blast
      with pn(3) show False by simp
    qed
  next
    fix i assume i: "i \<in> ?D \<inter> ?U"
    with Usub idset obtain pn where pn: "pn \<in> set (nodes ?p')" "node_id_of pn = i"
      by (metis (no_types, lifting) IntD2 imageE subsetD)
    with marks i have "HasField_run (partial_run_option (get_pipeline_node pn))" by blast
    with pn show "i \<in> {node_id_of pn | pn. pn \<in> set (nodes ?p') \<and>
              HasField_run (partial_run_option (get_pipeline_node pn))}" by blast
  qed
  have skips: "\<forall>pn\<in>set (nodes ?p'). node_id_of pn \<notin> ?D \<inter> ?U
              \<longrightarrow> HasField_skip (partial_run_option (get_pipeline_node pn))"
  proof (intro ballI impI)
    fix pn assume "pn \<in> set (nodes ?p')"
      and "node_id_of pn \<notin> ?D \<inter> ?U"
    with marks have "partial_run_option (get_pipeline_node pn) = Skip (node_id_of pn \<in> ex)"
      by blast
    then show "HasField_skip (partial_run_option (get_pipeline_node pn))" by simp
  qed
  from mp ids runset skips show ?thesis by blast
qed


lemma foldl_ordered_dict_set_keys:
  "fst ` set (foldl (\<lambda>result pn. ordered_dict_set (node_id_of pn) (get_pipeline_node pn) result)
                acc xs) = fst ` set acc \<union> node_id_of ` set xs"
  by (induction xs arbitrary: acc) (auto simp: ordered_dict_set_keys)

lemma make_ordered_node_map_keys: "fst ` set (make_ordered_node_map p) = node_ids p"
  by (simp add: make_ordered_node_map_def foldl_ordered_dict_set_keys node_ids_def)

lemma ordered_dict_set_distinct:
  "distinct (map fst kvs) \<Longrightarrow> distinct (map fst (ordered_dict_set k v kvs))"
proof (induction kvs)
  case Nil
  then show ?case by simp
next
  case (Cons a kvs)
  obtain k' v' where a: "a = (k', v')" by (cases a)
  show ?case using Cons unfolding a
    by (cases "k' = k") (auto simp: ordered_dict_set_keys)
qed

lemma foldl_ordered_dict_set_distinct:
  "distinct (map fst acc) \<Longrightarrow>
   distinct (map fst (foldl (\<lambda>result pn. ordered_dict_set (node_id_of pn) (get_pipeline_node pn)
                        result) acc xs))"
  by (induction xs arbitrary: acc) (auto simp: ordered_dict_set_distinct)

lemma make_ordered_node_map_distinct_keys: "distinct (map fst (make_ordered_node_map p))"
  by (simp add: make_ordered_node_map_def foldl_ordered_dict_set_distinct)

lemma filter_node_map_result:
  assumes "filter_node_map nm from_ids to_ids = Inr nm'"
  shows "\<exists>keep. nm' = filter (\<lambda>(node_id, node). node_id \<in> keep) nm"
proof -
  from assms obtain a d where "nm' = filter (\<lambda>(node_id, node). node_id \<in> a \<inter> d) nm"
    by (auto simp: filter_node_map_def split: sum.splits)
  then show ?thesis by blast
qed

lemma mark_pipeline_unfold:
  assumes "mark_pipeline p from_nodes to_nodes cs = Inr p'"
  shows "\<exists>nm' fixed excluded.
           filter_node_map (make_ordered_node_map p)
             (filter from_nodes (map fst (make_ordered_node_map p)))
             (filter to_nodes (map fst (make_ordered_node_map p))) = Inr nm' \<and>
           fix_nodes nm' = (fixed, excluded) \<and>
           p' = mark_nodes_and_nominate_chief p (set (map fst fixed)) excluded cs"
  using assms
  by (auto simp: mark_pipeline_def Let_def split: sum.splits prod.splits)

subsection \<open>Nomination of the chief\<close>

lemma mark_nodes_loop_length: "length (mark_nodes_loop xs inc exc cs b) = length xs"
  by (induction xs arbitrary: b) (auto simp: Let_def)

lemma mark_nodes_loop_no_chief:
  assumes "list_all (\<lambda>pn. \<not> HasField_chief_settings (partial_run_option (get_pipeline_node pn))) xs"
  shows "list_all (\<lambda>pn. \<not> HasField_chief_settings (partial_run_option (get_pipeline_node pn)))
           (mark_nodes_loop xs inc exc cs True)"
  using assms
proof (induction xs)
  case Nil
  then show ?case by simp
next
  case (Cons x xs)
  have r: "\<not> HasField_chief_settings opt \<Longrightarrow> \<not> HasField_chief_settings (run_SetInParent opt)"
    for opt by (cases opt) auto
  show ?case using Cons r
    by (auto simp: Let_def set_skip_child_in_partial_run_def)
qed

lemma mark_nodes_loop_skip_prefix:
  assumes "\<forall>pn\<in>set pre. node_id_of pn \<notin> inc"
  shows "mark_nodes_loop (pre @ rest) inc exc cs b
           = mark_nodes_loop pre inc exc cs b @ mark_nodes_loop rest inc exc cs b \<and>
         list_all (\<lambda>pn. \<not> HasField_chief_settings (partial_run_option (get_pipeline_node pn)))
           (mark_nodes_loop pre inc exc cs b)"
  using assms
  by (induction pre) (auto simp: Let_def node_id_of_def set_skip_child_in_partial_run_def)

lemma mark_nodes_loop_chief:
  assumes "\<forall>pn\<in>set pre. node_id_of pn \<notin> inc" and "node_id_of x \<in> inc"
    and "list_all (\<lambda>pn. \<not> HasField_chief_settings (partial_run_option (get_pipeline_node pn))) post"
  shows "\<exists>pre' x' post'. mark_nodes_loop (pre @ x # post) inc exc cs False = pre' @ x' # post' \<and>
           length pre' = length pre \<and>
           partial_run_option (get_pipeline_node x') = Run (Some cs) \<and>
           list_all (\<lambda>pn. \<not> HasField_chief_settings (partial_run_option (get_pipeline_node pn)))
             (pre' @ post')"
proof -
  let ?pre' = "mark_nodes_loop pre inc exc cs False"
  let ?post' = "mark_nodes_loop post inc exc cs True"
  let ?x' = "pipeline_node ((get_pipeline_node x)\<lparr>partial_run_option :=
               run_chief_settings_CopyFrom cs (partial_run_option (get_pipeline_node x))\<rparr>)"
  from mark_nodes_loop_skip_prefix[OF assms(1), of "x # post" exc cs False]
  have a: "mark_nodes_loop (pre @ x # post) inc exc cs False
             = ?pre' @ mark_nodes_loop (x # post) inc exc cs False"
    and b: "list_all (\<lambda>pn. \<not> HasField_chief_settings (partial_run_option (get_pipeline_node pn)))
              ?pre'" by auto
  have c: "mark_nodes_loop (x # post) inc exc cs False = ?x' # ?post'"
    using assms(2) by (simp add: Let_def node_id_of_def)
  have d: "list_all (\<lambda>pn. \<not> HasField_chief_settings (partial_run_option (get_pipeline_node pn)))
             ?post'"
    by (rule mark_nodes_loop_no_chief[OF assms(3)])
  have e: "partial_run_option (get_pipeline_node ?x') = Run (Some cs)"
    by (simp add: run_chief_settings_CopyFrom_def)
  show ?thesis
    by (rule exI[of _ ?pre'], rule exI[of _ ?x'], rule exI[of _ ?post'])
       (use a b c d e in \<open>simp add: mark_nodes_loop_length\<close>)
qed

text \<open>
  On a pipeline that has not been marked before (no node carries \<^verbatim>\<open>run.chief_settings\<close>)
  and with a kept set that is not empty, exactly one node of the marked pipeline carries
  chief settings (the ones passed to \<^verbatim>\<open>mark_pipeline\<close>), and it is the first node of the
  sequence whose id is kept.
\<close>

theorem chief_unique_and_first:
  assumes "mark_pipeline p from_nodes to_nodes cs = Inr p'"
    and "list_all (\<lambda>pn. \<not> HasField_chief_settings (partial_run_option (get_pipeline_node pn)))
           (nodes p)"
    and "filter_node_map (make_ordered_node_map p)
           (filter from_nodes (map fst (make_ordered_node_map p)))
           (filter to_nodes (map fst (make_ordered_node_map p))) = Inr to_keep"
    and "to_keep \<noteq> []"
  shows "\<exists>i < length (nodes p).
           length (nodes p') = length (nodes p) \<and>
           partial_run_option (get_pipeline_node (nodes p' ! i)) = Run (Some cs) \<and>
           (\<forall>j < length (nodes p').
              HasField_chief_settings (partial_run_option (get_pipeline_node (nodes p' ! j)))
              \<longrightarrow> j = i) \<and>
           node_id_of (nodes p ! i) \<in> fst ` set to_keep \<and>
           (\<forall>j < i. node_id_of (nodes p ! j) \<notin> fst ` set to_keep)"
proof -
  from mark_pipeline_unfold[OF assms(1)] assms(3)
  obtain fixed excluded where fx: "fix_nodes to_keep = (fixed, excluded)"
    and p': "p' = mark_nodes_and_nominate_chief p (set (map fst fixed)) excluded cs" by auto
  let ?inc = "fst ` set to_keep"
  have inc: "set (map fst fixed) = ?inc" using fix_nodes_keys[of to_keep] fx by simp
  from filter_node_map_result[OF assms(3)] have "?inc \<subseteq> fst ` set (make_ordered_node_map p)"
    by auto
  then have sub: "?inc \<subseteq> node_id_of ` set (nodes p)"
    by (simp add: make_ordered_node_map_keys node_ids_def)
  from assms(4) obtain k where "k \<in> ?inc" by (cases to_keep) auto
  with sub have "k \<in> node_id_of ` set (nodes p)" by blast
  then obtain pn0 where pn0: "k = node_id_of pn0" "pn0 \<in> set (nodes p)" by (rule imageE)
  have "\<exists>pn\<in>set (nodes p). node_id_of pn \<in> ?inc"
    by (rule bexI[of _ pn0]) (use pn0 \<open>k \<in> ?inc\<close> in simp_all)
  from split_list_first_prop[OF this] obtain pre x post where
    xs: "nodes p = pre @ x # post" and x: "node_id_of x \<in> ?inc"
    and pre: "\<forall>pn\<in>set pre. node_id_of pn \<notin> ?inc" by auto
  have post: "list_all (\<lambda>pn. \<not> HasField_chief_settings (partial_run_option (get_pipeline_node pn)))
                post" using assms(2) xs by simp
  from mark_nodes_loop_chief[OF pre x post, of excluded cs]
  obtain pre' x' post' where
    m: "mark_nodes_loop (pre @ x # post) ?inc excluded cs False = pre' @ x' # post'"
    and l: "length pre' = length pre"
    and c: "partial_run_option (get_pipeline_node x') = Run (Some cs)"
    and n: "list_all (\<lambda>pn. \<not> HasField_chief_settings (partial_run_option (get_pipeline_node pn)))
              (pre' @ post')" by blast
  have np': "nodes p' = pre' @ x' # post'"
    using p' m xs inc by (simp add: mark_nodes_and_nominate_chief_def)
  have len: "length (nodes p') = length (nodes p)"
    using p' by (simp add: mark_nodes_and_nominate_chief_def mark_nodes_loop_length)
  let ?i = "length pre"
  have i: "?i < length (nodes p)" using xs by simp
  have at: "nodes p' ! ?i = x'" using np' l by (simp add: nth_append)
  have uniq: "\<forall>j < length (nodes p').
              HasField_chief_settings (partial_run_option (get_pipeline_node (nodes p' ! j)))
              \<longrightarrow> j = ?i"
  proof (intro allI impI)
    fix j assume j: "j < length (nodes p')"
      and h: "HasField_chief_settings (partial_run_option (get_pipeline_node (nodes p' ! j)))"
    show "j = ?i"
    proof (rule ccontr)
      assume ne: "j \<noteq> ?i"
      have "nodes p' ! j \<in> set (pre' @ post')"
      proof (cases "j < ?i")
        case True
        then show ?thesis using np' l by (simp add: nth_append)
      next
        case False
        with ne have gt: "j > length pre'" using l by simp
        define m where "m = j - length pre' - 1"
        have jm: "j = length pre' + Suc m" using gt by (simp add: m_def)
        have lenp: "length (nodes p') = length pre' + Suc (length post')" using np' by simp
        have ml: "m < length post'" using j jm lenp by linarith
        have "(pre' @ x' # post') ! (length pre' + Suc m) = post' ! m"
          by (simp only: nth_append_length_plus nth_Cons_Suc)
        then have "nodes p' ! j = post' ! m" using np' jm by simp
        with ml show ?thesis by simp
      qed
      with n h show False by (auto simp: list_all_iff)
    qed
  qed
  have first: "node_id_of (nodes p ! ?i) \<in> ?inc" using xs x by simp
  have before: "\<forall>j < ?i. node_id_of (nodes p ! j) \<notin> ?inc"
  proof (intro allI impI)
    fix j assume jl: "j < ?i"
    then have "nodes p ! j = pre ! j" using xs by (simp add: nth_append)
    moreover have "pre ! j \<in> set pre" using jl by simp
    ultimately show "node_id_of (nodes p ! j) \<notin> ?inc" using pre by simp
  qed
  have c': "partial_run_option (get_pipeline_node (nodes p' ! ?i)) = Run (Some cs)"
    using at c by simp
  show ?thesis
    by (rule exI[of _ ?i]) (intro conjI i len c' uniq first before)
qed


subsection \<open>Fixing the kept nodes\<close>

lemma filter_length_eq: "length (filter P xs) = length xs \<Longrightarrow> filter P xs = xs"
proof (induction xs)
  case Nil
  then show ?case by simp
next
  case (Cons x xs)
  have le: "length (filter P xs) \<le> length xs" by (rule length_filter_le)
  show ?case
  proof (cases "P x")
    case True
    with Cons show ?thesis by simp
  next
    case False
    with Cons.prems le show ?thesis by simp
  qed
qed

lemma remove_dangling_fields:
  "upstream_nodes (remove_dangling_downstream_nodes n keep) = upstream_nodes n"
  "inputs (remove_dangling_downstream_nodes n keep) = inputs n"
  "downstream_nodes (remove_dangling_downstream_nodes n keep)
     = filter (\<lambda>d. d \<in> keep) (downstream_nodes n)"
  by (auto simp: remove_dangling_downstream_nodes_def Let_def filter_length_eq)

lemma handle_missing_inputs_upstream:
  "upstream_nodes (fst (handle_missing_inputs n keep))
     = filter (\<lambda>u. u \<in> keep) (upstream_nodes n)"
proof (cases "set (filter (\<lambda>u. u \<notin> keep) (upstream_nodes n)) = {}")
  case True
  then have "\<forall>u\<in>set (upstream_nodes n). u \<in> keep" by auto
  then have "filter (\<lambda>u. u \<in> keep) (upstream_nodes n) = upstream_nodes n"
    by (simp add: filter_id_conv)
  with True show ?thesis by (simp add: handle_missing_inputs_def Let_def)
next
  case False
  then show ?thesis by (simp add: handle_missing_inputs_def Let_def)
qed

lemma handle_missing_inputs_excluded:
  "snd (handle_missing_inputs n keep)
     = {u \<in> set (upstream_nodes n). u \<notin> keep \<and>
          u \<in> set (map producer_node_query_id (concat (map snd (inputs n))))}"
proof (cases "set (filter (\<lambda>u. u \<notin> keep) (upstream_nodes n)) = {}")
  case True
  then have "\<forall>u\<in>set (upstream_nodes n). u \<in> keep" by auto
  with True show ?thesis by (auto simp: handle_missing_inputs_def Let_def)
next
  case False
  then show ?thesis by (auto simp: handle_missing_inputs_def Let_def)
qed

lemma fix_nodes_loop_result:
  "distinct (map fst fixed @ map fst xs) \<Longrightarrow>
   fix_nodes_loop xs keep (fixed, merged)
     = (fixed @ map (\<lambda>(k, n). (k, fixed_node keep n)) xs,
        merged \<union> (\<Union>(k, n)\<in>set xs. excluded_of keep n))"
proof (induction xs arbitrary: fixed merged)
  case Nil
  then show ?case by simp
next
  case (Cons a xs)
  obtain k n where a: "a = (k, n)" by (cases a)
  have nk: "k \<notin> fst ` set fixed" using Cons.prems a by auto
  have d: "distinct (map fst (fixed @ [(k, fixed_node keep n)]) @ map fst xs)"
    using Cons.prems a by auto
  obtain n' ex where h: "handle_missing_inputs (remove_dangling_downstream_nodes n keep) keep
                          = (n', ex)"
    by (cases "handle_missing_inputs (remove_dangling_downstream_nodes n keep) keep")
  have n': "fixed_node keep n = n'" and ex: "excluded_of keep n = ex"
    using h by (simp_all add: fixed_node_def excluded_of_def)
  have step: "fix_nodes_loop ((k, n) # xs) keep (fixed, merged)
      = fix_nodes_loop xs keep (fixed @ [(k, fixed_node keep n)], merged \<union> excluded_of keep n)"
    using ordered_dict_set_append[OF nk, of n'] by (simp add: h n' ex)
  show ?case unfolding a step Cons.IH[OF d] by auto
qed

lemma fix_nodes_result:
  assumes "distinct (map fst nm)"
  shows "fix_nodes nm
     = (map (\<lambda>(k, n). (k, fixed_node (fst ` set nm) n)) nm,
        (\<Union>(k, n)\<in>set nm. excluded_of (fst ` set nm) n))"
  using fix_nodes_loop_result[of "[]" nm "set (map fst nm)" "{}"] assms
  by (simp add: fix_nodes_def)

text \<open>
  Claim C7, as amended.  For every kept node \<open>N\<close>, the fixed copy that the node-fixing step
  returns has exactly the upstream references of \<open>N\<close> that point into the kept set; the
  returned set of excluded direct dependencies holds exactly the removed upstream
  references that are also the producer of one of \<open>N\<close>'s input channels; and every node
  outside the kept set is marked \<^verbatim>\<open>skip\<close> with \<^verbatim>\<open>child_in_partial_run\<close> true exactly when its
  id is in that set.
\<close>

theorem removed_producers_are_excluded:
  assumes "mark_pipeline p from_nodes to_nodes cs = Inr p'"
  shows "\<exists>to_keep fixed excluded.
           filter_node_map (make_ordered_node_map p)
             (filter from_nodes (map fst (make_ordered_node_map p)))
             (filter to_nodes (map fst (make_ordered_node_map p))) = Inr to_keep \<and>
           fix_nodes to_keep = (fixed, excluded) \<and>
           map fst fixed = map fst to_keep \<and>
           (\<forall>(k, node)\<in>set to_keep. \<exists>node'. map_of fixed k = Some node' \<and>
              upstream_nodes node'
                = filter (\<lambda>u. u \<in> fst ` set to_keep) (upstream_nodes node)) \<and>
           excluded = {u. \<exists>(k, node)\<in>set to_keep. u \<in> set (upstream_nodes node) \<and>
                            u \<notin> fst ` set to_keep \<and>
                            u \<in> set (map producer_node_query_id (concat (map snd (inputs node))))} \<and>
           (\<forall>pn\<in>set (nodes p'). node_id_of pn \<notin> fst ` set to_keep \<longrightarrow>
              partial_run_option (get_pipeline_node pn) = Skip (node_id_of pn \<in> excluded))"
proof -
  from mark_pipeline_unfold[OF assms] obtain to_keep fixed excluded where
    f: "filter_node_map (make_ordered_node_map p)
             (filter from_nodes (map fst (make_ordered_node_map p)))
             (filter to_nodes (map fst (make_ordered_node_map p))) = Inr to_keep"
    and fx: "fix_nodes to_keep = (fixed, excluded)"
    and p': "p' = mark_nodes_and_nominate_chief p (set (map fst fixed)) excluded cs" by blast
  let ?keep = "fst ` set to_keep"
  from filter_node_map_result[OF f] have dk: "distinct (map fst to_keep)"
    using make_ordered_node_map_distinct_keys[of p] by (auto simp: distinct_map_filter)
  from fix_nodes_result[OF dk] fx
  have fixed: "fixed = map (\<lambda>(k, n). (k, fixed_node ?keep n)) to_keep"
    and excluded: "excluded = (\<Union>(k, n)\<in>set to_keep. excluded_of ?keep n)" by simp_all
  have keys: "map fst fixed = map fst to_keep" unfolding fixed by (induction to_keep) auto
  have ups: "\<forall>(k, node)\<in>set to_keep. \<exists>node'. map_of fixed k = Some node' \<and>
              upstream_nodes node' = filter (\<lambda>u. u \<in> ?keep) (upstream_nodes node)"
  proof (clarify)
    fix k node assume kn: "(k, node) \<in> set to_keep"
    have df: "distinct (map fst fixed)" using dk keys by simp
    have "(k, fixed_node ?keep node) \<in> set fixed" unfolding fixed using kn by force
    with df have "map_of fixed k = Some (fixed_node ?keep node)" by simp
    moreover have "upstream_nodes (fixed_node ?keep node)
                     = filter (\<lambda>u. u \<in> ?keep) (upstream_nodes node)"
      by (simp add: fixed_node_def handle_missing_inputs_upstream remove_dangling_fields)
    ultimately show "\<exists>node'. map_of fixed k = Some node' \<and>
              upstream_nodes node' = filter (\<lambda>u. u \<in> ?keep) (upstream_nodes node)" by blast
  qed
  have ex: "excluded = {u. \<exists>(k, node)\<in>set to_keep. u \<in> set (upstream_nodes node) \<and>
                            u \<notin> ?keep \<and>
                            u \<in> set (map producer_node_query_id (concat (map snd (inputs node))))}"
    unfolding excluded excluded_of_def handle_missing_inputs_excluded remove_dangling_fields
    by auto
  have inc: "set (map fst fixed) = ?keep" using keys by (metis set_map)
  have skip: "\<forall>pn\<in>set (nodes p'). node_id_of pn \<notin> ?keep \<longrightarrow>
              partial_run_option (get_pipeline_node pn) = Skip (node_id_of pn \<in> excluded)"
    using mark_nodes_loop_marks[of "nodes p" ?keep excluded cs False]
    unfolding p' inc by (simp add: mark_nodes_and_nominate_chief_def)
  from f fx keys ups ex skip show ?thesis by blast
qed


subsection \<open>The marker on concrete pipelines\<close>

text \<open>
  A \<open>\<rightarrow>\<close> B \<open>\<rightarrow>\<close> C marked from B to C: the pipeline passes the checks, B and C are marked
  \<^verbatim>\<open>run\<close>, and so the two reachability sets meet in B and C.
\<close>

theorem mark_pipeline_run_set_witness:
  "ensure_sync_pipeline abc_pipeline = Inr () \<and>
   ensure_no_subpipeline_nodes abc_pipeline = Inr () \<and>
   ensure_topologically_sorted abc_pipeline = Inr () \<and>
   distinct (map node_id_of (nodes abc_pipeline)) \<and>
   mark_pipeline abc_pipeline (\<lambda>i. i = ''B'') (\<lambda>i. i = ''C'') default_chief_settings
     = Inr abc_marked \<and>
   reachable DOWNSTREAM abc_pipeline {i \<in> node_ids abc_pipeline. i = ''B''} \<inter>
   reachable UPSTREAM abc_pipeline {i \<in> node_ids abc_pipeline. i = ''C''} = {''B'', ''C''}"
proof -
  let ?a = "pipeline_node ((example_node ''A'' [] [''B''])\<lparr>partial_run_option := Skip True\<rparr>)"
  let ?b = "pipeline_node (abc_node_B\<lparr>partial_run_option := Run (Some LatestPipelineRunStrategy)\<rparr>)"
  let ?c = "pipeline_node (abc_node_C\<lparr>partial_run_option := Run None\<rparr>)"
  have h1: "ensure_sync_pipeline abc_pipeline = Inr ()" by code_simp
  have h2: "ensure_no_subpipeline_nodes abc_pipeline = Inr ()" by code_simp
  have h3: "ensure_topologically_sorted abc_pipeline = Inr ()" by code_simp
  have h4: "distinct (map node_id_of (nodes abc_pipeline))" by code_simp
  have m: "mark_pipeline abc_pipeline (\<lambda>i. i = ''B'') (\<lambda>i. i = ''C'') default_chief_settings
             = Inr abc_marked" by code_simp
  have n: "nodes abc_marked = [?a, ?b, ?c]" by (simp add: abc_marked_def)
  have ia: "node_id_of ?a = ''A''" and ib: "node_id_of ?b = ''B''" and ic: "node_id_of ?c = ''C''"
    by code_simp+
  have ra: "\<not> HasField_run (partial_run_option (get_pipeline_node ?a))"
    and rb: "HasField_run (partial_run_option (get_pipeline_node ?b))"
    and rc: "HasField_run (partial_run_option (get_pipeline_node ?c))"
    by code_simp+
  have s: "{node_id_of pn | pn. pn \<in> set (nodes abc_marked) \<and>
              HasField_run (partial_run_option (get_pipeline_node pn))} = {''B'', ''C''}"
  proof (intro equalityI subsetI)
    fix i assume "i \<in> {node_id_of pn | pn. pn \<in> set (nodes abc_marked) \<and>
              HasField_run (partial_run_option (get_pipeline_node pn))}"
    then have "\<exists>pn. i = node_id_of pn \<and> pn \<in> set (nodes abc_marked) \<and>
              HasField_run (partial_run_option (get_pipeline_node pn))"
      by (simp only: mem_Collect_eq)
    then obtain pn where pn: "i = node_id_of pn" "pn \<in> set [?a, ?b, ?c]"
      "HasField_run (partial_run_option (get_pipeline_node pn))" unfolding n by (elim exE conjE)
    from pn(2) have "pn = ?a \<or> pn = ?b \<or> pn = ?c" by simp
    with pn(1,3) ra ib ic show "i \<in> {''B'', ''C''}" by (elim disjE) simp_all
  next
    fix i assume "i \<in> {''B'', ''C''}"
    then have "i = ''B'' \<or> i = ''C''" by blast
    then show "i \<in> {node_id_of pn | pn. pn \<in> set (nodes abc_marked) \<and>
              HasField_run (partial_run_option (get_pipeline_node pn))}"
    proof
      assume i: "i = ''B''"
      have mb: "?b \<in> set (nodes abc_marked)" unfolding n by simp
      have "\<exists>pn. i = node_id_of pn \<and> pn \<in> set (nodes abc_marked) \<and>
              HasField_run (partial_run_option (get_pipeline_node pn))"
        by (rule exI[of _ ?b]) (intro conjI mb rb, simp only: i ib)
      then show ?thesis by (simp only: mem_Collect_eq)
    next
      assume i: "i = ''C''"
      have mc: "?c \<in> set (nodes abc_marked)" unfolding n by simp
      have "\<exists>pn. i = node_id_of pn \<and> pn \<in> set (nodes abc_marked) \<and>
              HasField_run (partial_run_option (get_pipeline_node pn))"
        by (rule exI[of _ ?c]) (intro conjI mc rc, simp only: i ic)
      then show ?thesis by (simp only: mem_Collect_eq)
    qed
  qed
  from mark_pipeline_run_set[OF h1 h2 h3 h4, of "\<lambda>i. i = ''B''" "\<lambda>i. i = ''C''"
      default_chief_settings]
  obtain p' where e: "mark_pipeline abc_pipeline (\<lambda>i. i = ''B'') (\<lambda>i. i = ''C'')
                        default_chief_settings = Inr p'"
    and rs: "{node_id_of pn | pn. pn \<in> set (nodes p') \<and>
              HasField_run (partial_run_option (get_pipeline_node pn))}
             = reachable DOWNSTREAM abc_pipeline {i \<in> node_ids abc_pipeline. i = ''B''} \<inter>
               reachable UPSTREAM abc_pipeline {i \<in> node_ids abc_pipeline. i = ''C''}"
    by blast
  from e m have "p' = abc_marked" by simp
  with rs s have "reachable DOWNSTREAM abc_pipeline {i \<in> node_ids abc_pipeline. i = ''B''} \<inter>
               reachable UPSTREAM abc_pipeline {i \<in> node_ids abc_pipeline. i = ''C''}
                 = {''B'', ''C''}" by simp
  with h1 h2 h3 h4 m show ?thesis by (intro conjI)
qed

text \<open>
  Claim C6.  After \<^verbatim>\<open>mark_pipeline\<close> with a kept set that is not empty, exactly one node
  carries chief settings, the first kept node.  The code breaks this when a kept node after
  the first already carries chief settings: for such a node line 100 calls
  \<^verbatim>\<open>run.SetInParent()\<close>, which keeps the fields of a \<^verbatim>\<open>run\<close> that is already set, whereas
  the first kept node and the skipped nodes have their earlier marks overwritten.  Two
  inputs: A \<open>\<rightarrow>\<close> B with chief settings on B, marked with the default selectors; and the
  two-node pipeline marked from B, the output then marked again with the default
  selectors.  Both outputs carry chief settings on A and on B.
\<close>

theorem two_chiefs_after_remarking:
  "(case mark_pipeline premarked_pipeline (\<lambda>_. True) (\<lambda>_. True) default_chief_settings of
      Inl e \<Rightarrow> []
    | Inr p' \<Rightarrow> map (\<lambda>pn. HasField_chief_settings (partial_run_option (get_pipeline_node pn)))
                  (nodes p')) = [True, True] \<and>
   (case mark_pipeline example_pipeline (\<lambda>i. i = ''B'') (\<lambda>_. True) default_chief_settings of
      Inl e \<Rightarrow> []
    | Inr p1 \<Rightarrow>
        (case mark_pipeline p1 (\<lambda>_. True) (\<lambda>_. True) default_chief_settings of
           Inl e \<Rightarrow> []
         | Inr p2 \<Rightarrow>
             map (\<lambda>pn. HasField_chief_settings (partial_run_option (get_pipeline_node pn)))
               (nodes p1)
             @ map (\<lambda>pn. HasField_chief_settings (partial_run_option (get_pipeline_node pn)))
                 (nodes p2))) = [False, True, True, True]"
  by code_simp

text \<open>
  The unmarked pipeline A \<open>\<rightarrow>\<close> B \<open>\<rightarrow>\<close> C marked from B to C: the kept map holds B and C,
  and B, the first kept node, is the only chief.
\<close>

theorem chief_unique_and_first_witness:
  "filter_node_map (make_ordered_node_map abc_pipeline)
     (filter (\<lambda>i. i = ''B'') (map fst (make_ordered_node_map abc_pipeline)))
     (filter (\<lambda>i. i = ''C'') (map fst (make_ordered_node_map abc_pipeline)))
     = Inr [(''B'', abc_node_B), (''C'', abc_node_C)] \<and>
   (case mark_pipeline abc_pipeline (\<lambda>i. i = ''B'') (\<lambda>i. i = ''C'') default_chief_settings of
      Inl e \<Rightarrow> []
    | Inr p' \<Rightarrow> map (\<lambda>pn. HasField_chief_settings (partial_run_option (get_pipeline_node pn)))
                  (nodes p')) = [False, True, False] \<and>
   (\<exists>p' i. mark_pipeline abc_pipeline (\<lambda>i. i = ''B'') (\<lambda>i. i = ''C'') default_chief_settings
              = Inr p' \<and> i < length (nodes abc_pipeline) \<and>
            partial_run_option (get_pipeline_node (nodes p' ! i))
              = Run (Some default_chief_settings) \<and>
            node_id_of (nodes abc_pipeline ! i) \<in> {''B'', ''C''})"
proof -
  have f: "filter_node_map (make_ordered_node_map abc_pipeline)
     (filter (\<lambda>i. i = ''B'') (map fst (make_ordered_node_map abc_pipeline)))
     (filter (\<lambda>i. i = ''C'') (map fst (make_ordered_node_map abc_pipeline)))
     = Inr [(''B'', abc_node_B), (''C'', abc_node_C)]" by code_simp
  have c: "(case mark_pipeline abc_pipeline (\<lambda>i. i = ''B'') (\<lambda>i. i = ''C'')
                   default_chief_settings of
      Inl e \<Rightarrow> []
    | Inr p' \<Rightarrow> map (\<lambda>pn. HasField_chief_settings (partial_run_option (get_pipeline_node pn)))
                  (nodes p')) = [False, True, False]" by code_simp
  then obtain p' where e: "mark_pipeline abc_pipeline (\<lambda>i. i = ''B'') (\<lambda>i. i = ''C'')
                             default_chief_settings = Inr p'"
    by (cases "mark_pipeline abc_pipeline (\<lambda>i. i = ''B'') (\<lambda>i. i = ''C'') default_chief_settings")
       simp_all
  have n: "list_all (\<lambda>pn. \<not> HasField_chief_settings (partial_run_option (get_pipeline_node pn)))
             (nodes abc_pipeline)" by code_simp
  have ne: "[(''B'', abc_node_B), (''C'', abc_node_C)] \<noteq> []" by simp
  from chief_unique_and_first[OF e n f ne] obtain i where
    "i < length (nodes abc_pipeline)"
    "partial_run_option (get_pipeline_node (nodes p' ! i)) = Run (Some default_chief_settings)"
    "node_id_of (nodes abc_pipeline ! i) \<in> fst ` set [(''B'', abc_node_B), (''C'', abc_node_C)]"
    by blast
  then have i: "i < length (nodes abc_pipeline)"
    "partial_run_option (get_pipeline_node (nodes p' ! i)) = Run (Some default_chief_settings)"
    "node_id_of (nodes abc_pipeline ! i) \<in> {''B'', ''C''}"
    by simp_all
  from e i have "\<exists>p' i. mark_pipeline abc_pipeline (\<lambda>i. i = ''B'') (\<lambda>i. i = ''C'')
              default_chief_settings = Inr p' \<and> i < length (nodes abc_pipeline) \<and>
            partial_run_option (get_pipeline_node (nodes p' ! i))
              = Run (Some default_chief_settings) \<and>
            node_id_of (nodes abc_pipeline ! i) \<in> {''B'', ''C''}"
    by (intro exI[of _ p'] exI[of _ i] conjI)
  with f c show ?thesis by (intro conjI)
qed

text \<open>
  Claim C7 as it was stated fails: in the two-node pipeline, B lists A upstream without
  consuming any of A's outputs.  Marking from B removes that upstream reference from the
  fixed copy of B, yet the returned set is empty and A is marked with
  \<^verbatim>\<open>child_in_partial_run\<close> false.
\<close>

theorem removed_upstream_not_excluded_counterexample:
  "''A'' \<in> set (upstream_nodes node_B) \<and>
   filter_node_map (make_ordered_node_map example_pipeline)
     (filter (\<lambda>i. i = ''B'') (map fst (make_ordered_node_map example_pipeline)))
     (filter (\<lambda>_. True) (map fst (make_ordered_node_map example_pipeline)))
     = Inr [(''B'', node_B)] \<and>
   fix_nodes [(''B'', node_B)] = ([(''B'', node_B\<lparr>upstream_nodes := []\<rparr>)], {}) \<and>
   (case mark_pipeline example_pipeline (\<lambda>i. i = ''B'') (\<lambda>_. True) default_chief_settings of
      Inl e \<Rightarrow> []
    | Inr p' \<Rightarrow> map (\<lambda>pn. partial_run_option (get_pipeline_node pn)) (nodes p'))
     = [Skip False, Run (Some LatestPipelineRunStrategy)]"
  by code_simp

text \<open>
  The amended claim on A \<open>\<rightarrow>\<close> B \<open>\<rightarrow>\<close> C marked from B to C, where B consumes an output of
  A: the excluded direct dependencies are exactly A.
\<close>

theorem removed_producers_are_excluded_witness:
  "(case mark_pipeline abc_pipeline (\<lambda>i. i = ''B'') (\<lambda>i. i = ''C'') default_chief_settings of
      Inl e \<Rightarrow> []
    | Inr p' \<Rightarrow> map (\<lambda>pn. partial_run_option (get_pipeline_node pn)) (nodes p'))
     = [Skip True, Run (Some LatestPipelineRunStrategy), Run None] \<and>
   (\<exists>to_keep fixed excluded.
      filter_node_map (make_ordered_node_map abc_pipeline)
        (filter (\<lambda>i. i = ''B'') (map fst (make_ordered_node_map abc_pipeline)))
        (filter (\<lambda>i. i = ''C'') (map fst (make_ordered_node_map abc_pipeline))) = Inr to_keep \<and>
      fix_nodes to_keep = (fixed, excluded) \<and>
      map fst fixed = [''B'', ''C''] \<and> excluded = {''A''})"
proof -
  have c: "(case mark_pipeline abc_pipeline (\<lambda>i. i = ''B'') (\<lambda>i. i = ''C'')
                   default_chief_settings of
      Inl e \<Rightarrow> []
    | Inr p' \<Rightarrow> map (\<lambda>pn. partial_run_option (get_pipeline_node pn)) (nodes p'))
     = [Skip True, Run (Some LatestPipelineRunStrategy), Run None]" by code_simp
  then obtain p' where e: "mark_pipeline abc_pipeline (\<lambda>i. i = ''B'') (\<lambda>i. i = ''C'')
                             default_chief_settings = Inr p'"
    by (cases "mark_pipeline abc_pipeline (\<lambda>i. i = ''B'') (\<lambda>i. i = ''C'') default_chief_settings")
       simp_all
  have f: "filter_node_map (make_ordered_node_map abc_pipeline)
     (filter (\<lambda>i. i = ''B'') (map fst (make_ordered_node_map abc_pipeline)))
     (filter (\<lambda>i. i = ''C'') (map fst (make_ordered_node_map abc_pipeline)))
     = Inr [(''B'', abc_node_B), (''C'', abc_node_C)]" by code_simp
  have x: "snd (fix_nodes [(''B'', abc_node_B), (''C'', abc_node_C)]) = {''A''}" by code_simp
  from removed_producers_are_excluded[OF e] obtain to_keep fixed excluded where
    r: "filter_node_map (make_ordered_node_map abc_pipeline)
          (filter (\<lambda>i. i = ''B'') (map fst (make_ordered_node_map abc_pipeline)))
          (filter (\<lambda>i. i = ''C'') (map fst (make_ordered_node_map abc_pipeline))) = Inr to_keep"
      "fix_nodes to_keep = (fixed, excluded)" "map fst fixed = map fst to_keep"
    by blast
  from r(1) f have tk: "to_keep = [(''B'', abc_node_B), (''C'', abc_node_C)]" by simp
  from r(2) x tk have ex: "excluded = {''A''}" by simp
  from r(3) tk have k: "map fst fixed = [''B'', ''C'']" by simp
  from r(1,2) k ex have "\<exists>to_keep fixed excluded.
      filter_node_map (make_ordered_node_map abc_pipeline)
        (filter (\<lambda>i. i = ''B'') (map fst (make_ordered_node_map abc_pipeline)))
        (filter (\<lambda>i. i = ''C'') (map fst (make_ordered_node_map abc_pipeline))) = Inr to_keep \<and>
      fix_nodes to_keep = (fixed, excluded) \<and>
      map fst fixed = [''B'', ''C''] \<and> excluded = {''A''}"
    by (intro exI[of _ to_keep] exI[of _ fixed] exI[of _ excluded] conjI)
  with c show ?thesis by (intro conjI)
qed

section \<open>Properties of the task generator\<close>

subsection \<open>Assembly of the result of a tick\<close>

lemma task_kinds:
  "\<not> is_update_node_state_task x \<Longrightarrow> \<not> is_exec_node_task x \<Longrightarrow> is_finalize_pipeline_task x"
  by (cases x) auto

lemma task_kinds_disjoint:
  "is_update_node_state_task x \<Longrightarrow> \<not> is_exec_node_task x \<and> \<not> is_finalize_pipeline_task x"
  "is_exec_node_task x \<Longrightarrow> \<not> is_update_node_state_task x \<and> \<not> is_finalize_pipeline_task x"
  by (cases x; simp)+

lemma classify_tasks_inv: "tick_inv t \<Longrightarrow> tick_inv (classify_tasks tasks t)"
proof (induction tasks arbitrary: t)
  case Nil
  then show ?case by simp
next
  case (Cons x xs)
  show ?case
    unfolding classify_tasks.simps
    by (rule Cons.IH) (use Cons.prems task_kinds[of x] in \<open>auto simp: tick_inv_def\<close>)
qed

lemma classify_tasks_updates:
  "update_node_state_tasks (classify_tasks tasks t)
     = update_node_state_tasks t @ filter is_update_node_state_task tasks"
  by (induction tasks arbitrary: t) auto

lemma layer_loop_inv: "tick_inv t \<Longrightarrow> tick_inv (layer_loop g layer_nodes t)"
proof (induction layer_nodes arbitrary: t)
  case Nil
  then show ?case by simp
next
  case (Cons node layer_nodes)
  obtain tasks successful w where
    r: "generate_tasks_for_node g node (successful_node_ids t) (outside t) = (tasks, successful, w)"
    by (cases "generate_tasks_for_node g node (successful_node_ids t) (outside t)")
  let ?t' = "classify_tasks tasks (t\<lparr>successful_node_ids := successful, outside := w\<rparr>)"
  have "tick_inv (t\<lparr>successful_node_ids := successful, outside := w\<rparr>)"
    using Cons.prems by (simp add: tick_inv_def)
  then have inv': "tick_inv ?t'" by (rule classify_tasks_inv)
  show ?case using inv' Cons.IH[OF inv'] by (simp add: r Let_def)
qed

lemma layers_loop_inv: "tick_inv t \<Longrightarrow> tick_inv (layers_loop g layers t)"
proof (induction layers arbitrary: t)
  case Nil
  then show ?case by simp
next
  case (Cons layer_nodes layers)
  let ?t' = "layer_loop g layer_nodes t"
  have inv': "tick_inv ?t'" using Cons.prems by (rule layer_loop_inv)
  have "tick_inv (?t'\<lparr>outside := w\<rparr>)" for w using inv' by (simp add: tick_inv_def)
  from Cons.IH[OF this] inv' show ?case by (simp add: Let_def)
qed

lemma generate_loops_inv: "tick_inv (generate_loops g layers w)"
  unfolding generate_loops_def by (rule layers_loop_inv) (simp add: tick_inv_def)

text \<open>
  Claim C1.  Whenever \<^verbatim>\<open>generate\<close> returns, (a) a result that holds a finalize task
  holds no execution task, and a tick in which a node decision produced a finalize task
  returns no execution task; (b) the update tasks accumulated during the tick form the
  start of the result and are exactly the update tasks of the result; (c) when no node
  decision produced a finalize task and every terminal node id is in
  \<^verbatim>\<open>successful_node_ids\<close>, the result is the accumulated update tasks followed by one
  finalize task with status code OK.
\<close>

theorem generate_result_shape:
  assumes "generate g w = Inr (result, w')"
  shows "\<exists>layers. topsorted_layers g (gen_pipeline g) = Inr layers \<and>
           ((\<exists>x\<in>set result. is_finalize_pipeline_task x)
              \<longrightarrow> (\<forall>x\<in>set result. \<not> is_exec_node_task x)) \<and>
           (finalize_pipeline_task (generate_loops g layers w) \<noteq> None
              \<longrightarrow> (\<forall>x\<in>set result. \<not> is_exec_node_task x)) \<and>
           filter is_update_node_state_task result
             = update_node_state_tasks (generate_loops g layers w) \<and>
           take (length (update_node_state_tasks (generate_loops g layers w))) result
             = update_node_state_tasks (generate_loops g layers w) \<and>
           (finalize_pipeline_task (generate_loops g layers w) = None \<and>
            terminal_node_ids layers \<subseteq> successful_node_ids (generate_loops g layers w)
              \<longrightarrow> result = update_node_state_tasks (generate_loops g layers w)
                    @ [FinalizePipelineTask (gen_pipeline_uid g)
                         \<lparr>status_code = Code_OK, status_message = []\<rparr>])"
proof -
  from assms obtain layers where l: "topsorted_layers g (gen_pipeline g) = Inr layers"
    by (auto simp: generate_def split: sum.splits)
  define t where "t = generate_loops g layers w"
  have inv: "tick_inv t" unfolding t_def by (rule generate_loops_inv)
  then have upd: "\<forall>x\<in>set (update_node_state_tasks t). is_update_node_state_task x"
    and ex: "\<forall>x\<in>set (exec_node_tasks t). is_exec_node_task x"
    by (auto simp: tick_inv_def list_all_iff)
  have fu: "filter is_update_node_state_task (update_node_state_tasks t) = update_node_state_tasks t"
    using upd by (simp add: filter_id_conv)
  have fe: "filter is_update_node_state_task (exec_node_tasks t) = []"
    using ex task_kinds_disjoint(2) by (auto simp: filter_empty_conv)
  have nex: "\<forall>x\<in>set (update_node_state_tasks t). \<not> is_exec_node_task x"
    using upd task_kinds_disjoint(1) by blast
  have nfin: "\<forall>x\<in>set (update_node_state_tasks t) \<union> set (exec_node_tasks t).
                \<not> is_finalize_pipeline_task x"
    using upd ex task_kinds_disjoint by blast
  from assms l have res: "result =
      (case finalize_pipeline_task t of
         Some task \<Rightarrow> update_node_state_tasks t @ [task]
       | None \<Rightarrow>
           if terminal_node_ids layers \<subseteq> successful_node_ids t then
             update_node_state_tasks t @ [FinalizePipelineTask (gen_pipeline_uid g)
                         \<lparr>status_code = Code_OK, status_message = []\<rparr>]
           else update_node_state_tasks t @ exec_node_tasks t)"
    unfolding t_def by (auto simp: generate_def Let_def)
  have body:
    "((\<exists>x\<in>set result. is_finalize_pipeline_task x)
        \<longrightarrow> (\<forall>x\<in>set result. \<not> is_exec_node_task x)) \<and>
     (finalize_pipeline_task t \<noteq> None \<longrightarrow> (\<forall>x\<in>set result. \<not> is_exec_node_task x)) \<and>
     filter is_update_node_state_task result = update_node_state_tasks t \<and>
     take (length (update_node_state_tasks t)) result = update_node_state_tasks t \<and>
     (finalize_pipeline_task t = None \<and> terminal_node_ids layers \<subseteq> successful_node_ids t
        \<longrightarrow> result = update_node_state_tasks t
              @ [FinalizePipelineTask (gen_pipeline_uid g)
                   \<lparr>status_code = Code_OK, status_message = []\<rparr>])"
  proof (cases "finalize_pipeline_task t")
    case None
    show ?thesis
    proof (cases "terminal_node_ids layers \<subseteq> successful_node_ids t")
      case True
      with None res have r: "result = update_node_state_tasks t
          @ [FinalizePipelineTask (gen_pipeline_uid g) \<lparr>status_code = Code_OK, status_message = []\<rparr>]"
        by simp
      show ?thesis using r fu nex None by auto
    next
      case False
      with None res have r: "result = update_node_state_tasks t @ exec_node_tasks t" by simp
      show ?thesis using r fu fe nfin None False by auto
    qed
  next
    case (Some task)
    with inv have ft: "is_finalize_pipeline_task task" by (simp add: tick_inv_def)
    then have nt: "\<not> is_exec_node_task task" "\<not> is_update_node_state_task task"
      by (cases task; simp)+
    from Some res have r: "result = update_node_state_tasks t @ [task]" by simp
    show ?thesis using r fu nex nt Some by auto
  qed
  show ?thesis
    by (rule exI[of _ layers]) (use l body in \<open>simp add: t_def\<close>)
qed


text \<open>
  A tick of the two-node pipeline in which both nodes have a successful latest
  execution: two update tasks, then the finalize task with code OK.
\<close>

theorem generate_result_shape_witness:
  "generate (example_generator (\<lambda>_. NodeState_RUNNING)
      (\<lambda>_. [example_execution 1 Execution_SUCCESSFUL []]) (\<lambda>_. None) None) []
     = Inr ([UpdateNodeStateTask (NodeUid ''p'' ''A'') NodeState_COMPLETE None,
             UpdateNodeStateTask (NodeUid ''p'' ''B'') NodeState_COMPLETE None,
             FinalizePipelineTask ''p'' \<lparr>status_code = Code_OK, status_message = []\<rparr>],
            [''cache_set A'', ''cache_set B'']) \<and>
   (\<exists>layers. topsorted_layers (example_generator (\<lambda>_. NodeState_RUNNING)
                 (\<lambda>_. [example_execution 1 Execution_SUCCESSFUL []]) (\<lambda>_. None) None)
                 example_pipeline = Inr layers \<and>
      update_node_state_tasks (generate_loops (example_generator (\<lambda>_. NodeState_RUNNING)
                 (\<lambda>_. [example_execution 1 Execution_SUCCESSFUL []]) (\<lambda>_. None) None) layers [])
        = [UpdateNodeStateTask (NodeUid ''p'' ''A'') NodeState_COMPLETE None,
           UpdateNodeStateTask (NodeUid ''p'' ''B'') NodeState_COMPLETE None])"
proof -
  let ?g = "example_generator (\<lambda>_. NodeState_RUNNING)
      (\<lambda>_. [example_execution 1 Execution_SUCCESSFUL []]) (\<lambda>_. None) None"
  have e: "generate ?g []
     = Inr ([UpdateNodeStateTask (NodeUid ''p'' ''A'') NodeState_COMPLETE None,
             UpdateNodeStateTask (NodeUid ''p'' ''B'') NodeState_COMPLETE None,
             FinalizePipelineTask ''p'' \<lparr>status_code = Code_OK, status_message = []\<rparr>],
            [''cache_set A'', ''cache_set B''])"
    by code_simp
  have p: "gen_pipeline ?g = example_pipeline" by code_simp
  from generate_result_shape[OF e] obtain layers where
    "topsorted_layers ?g (gen_pipeline ?g) = Inr layers"
    "filter is_update_node_state_task
       [UpdateNodeStateTask (NodeUid ''p'' ''A'') NodeState_COMPLETE None,
        UpdateNodeStateTask (NodeUid ''p'' ''B'') NodeState_COMPLETE None,
        FinalizePipelineTask ''p'' \<lparr>status_code = Code_OK, status_message = []\<rparr>]
      = update_node_state_tasks (generate_loops ?g layers [])"
    by blast
  then show ?thesis using e p by auto
qed

subsection \<open>The decision for one node\<close>

lemma abort_task_is_finalize: "is_finalize_pipeline_task (abort_task g msg)"
  by (simp add: abort_task_def)

text \<open>
  Claim C2.  For a node that reaches the inspection of its executions (not in the
  successful-nodes cache, upstream nodes successful, not stopping or stopped, not a pure
  service node, no tracked task) and whose most recent execution is neither successful nor
  active: if the node state is not STARTING the decision is exactly an update task with
  state FAILED and code ABORTED and a finalize task with code ABORTED, the message being
  the execution's \<^verbatim>\<open>__execution_error_msg__\<close> property when present and empty otherwise; if
  the node state is STARTING that branch is skipped and the decision is the one of fresh
  input resolution.  The second part is about a node none of whose executions is active:
  an execution is registered for a node only after none was found active (lines 235-242
  come before line 277), so no active execution lies beside a later one that has ended.
\<close>

theorem failed_latest_execution_decision:
  assumes "in_successful_nodes_cache g (NodeUid_from_pipeline_node (gen_pipeline g) node) w
             = (False, w1)"
    and "upstream_nodes_successful node successful"
    and "get_node_state_fn g w1 (NodeUid_from_pipeline_node (gen_pipeline g) node) = node_state"
    and "node_state \<noteq> NodeState_STOPPING" and "node_state \<noteq> NodeState_STOPPED"
    and "ensure_node_services_if_pure g (node_info_id node) w1 = (None, w2)"
    and "\<not> is_task_id_tracked_fn g w2 (exec_node_task_id_from_pipeline_node (gen_pipeline g) node)"
    and "get_latest_execution (get_executions_fn g w2 node) = Some e"
    and "\<not> is_execution_successful e" and "\<not> is_execution_active e"
  shows "(node_state \<noteq> NodeState_STARTING \<longrightarrow>
            generate_tasks_for_node g node successful w =
              ([UpdateNodeStateTask (NodeUid_from_pipeline_node (gen_pipeline g) node)
                  NodeState_FAILED
                  (Some \<lparr>status_code = Code_ABORTED,
                         status_message =
                           (case map_of (custom_properties e) EXECUTION_ERROR_MSG_KEY of
                              Some v \<Rightarrow> v | None \<Rightarrow> [])\<rparr>),
                FinalizePipelineTask (gen_pipeline_uid g)
                  \<lparr>status_code = Code_ABORTED,
                   status_message =
                     ''Aborting pipeline execution due to node execution failure; error: ''
                     @ ''node failed; node uid: ''
                     @ str_NodeUid_fn g (NodeUid_from_pipeline_node (gen_pipeline g) node)
                     @ ''; error: ''
                     @ (case map_of (custom_properties e) EXECUTION_ERROR_MSG_KEY of
                          Some v \<Rightarrow> v | None \<Rightarrow> [])\<rparr>],
               successful, w2)) \<and>
         (node_state = NodeState_STARTING \<and>
          filter is_execution_active (get_executions_fn g w2 node) = [] \<longrightarrow>
            generate_tasks_for_node g node successful w =
              resolve_inputs_and_generate_tasks_for_node g node (get_executions_fn g w2 node)
                successful w2)"
proof -
  have step: "generate_tasks_for_node g node successful w
                = tasks_from_executions g node node_state successful w2"
    using assms(1-7) by (simp add: generate_tasks_for_node_def Let_def)
  have a: "node_state \<noteq> NodeState_STARTING \<Longrightarrow> ?thesis"
    using assms(8-10) unfolding step
    by (simp add: tasks_from_executions_def Let_def abort_task_def)
  have b: "node_state = NodeState_STARTING \<Longrightarrow> ?thesis"
    using assms(8-10) unfolding step
    by (cases "filter is_execution_active (get_executions_fn g w2 node)")
       (auto simp: tasks_from_executions_def Let_def generate_task_from_active_execution_def
             split: prod.splits)
  from a b show ?thesis by blast
qed

text \<open>
  The set \<^verbatim>\<open>successful_node_ids\<close> only grows: no decision and no loop of the tick removes
  an id from it.
\<close>

lemma launch_tasks_successful:
  "launch_tasks g node ri ia e oa cs S w = (tasks, S', w') \<Longrightarrow> S' = S"
  by (auto simp: launch_tasks_def Let_def split: prod.splits if_splits)

lemma resolve_inputs_successful_mono:
  "resolve_inputs_and_generate_tasks_for_node g node ex S w = (tasks, S', w') \<Longrightarrow> S \<subseteq> S'"
  by (auto simp: resolve_inputs_and_generate_tasks_for_node_def Let_def
           split: prod.splits option.splits if_splits dest: launch_tasks_successful)

lemma tasks_from_executions_successful_mono:
  "tasks_from_executions g node st S w = (tasks, S', w') \<Longrightarrow> S \<subseteq> S'"
  by (auto simp: tasks_from_executions_def Let_def
           split: prod.splits option.splits if_splits dest: resolve_inputs_successful_mono)

lemma generate_tasks_for_node_successful_mono:
  "generate_tasks_for_node g node S w = (tasks, S', w') \<Longrightarrow> S \<subseteq> S'"
  by (auto simp: generate_tasks_for_node_def Let_def
           split: prod.splits option.splits if_splits ServiceStatus.splits
           dest: tasks_from_executions_successful_mono)

lemma classify_tasks_frame:
  "successful_node_ids (classify_tasks tasks t) = successful_node_ids t"
  "outside (classify_tasks tasks t) = outside t"
  by (induction tasks arbitrary: t) auto

lemma layer_loop_successful_mono:
  "successful_node_ids t \<subseteq> successful_node_ids (layer_loop g layer_nodes t)"
proof (induction layer_nodes arbitrary: t)
  case Nil
  then show ?case by simp
next
  case (Cons node layer_nodes)
  obtain tasks S w where d:
    "generate_tasks_for_node g node (successful_node_ids t) (outside t) = (tasks, S, w)"
    by (cases "generate_tasks_for_node g node (successful_node_ids t) (outside t)")
  define t' where "t' = classify_tasks tasks (t\<lparr>successful_node_ids := S, outside := w\<rparr>)"
  have s: "successful_node_ids t' = S" by (simp add: t'_def classify_tasks_frame)
  have m: "successful_node_ids t \<subseteq> S" by (rule generate_tasks_for_node_successful_mono[OF d])
  have "layer_loop g (node # layer_nodes) t
          = (if finalize_pipeline_task t' \<noteq> None then t' else layer_loop g layer_nodes t')"
    by (simp add: d t'_def Let_def)
  then show ?case using m s Cons.IH[of t'] by auto
qed

lemma layers_loop_successful_mono:
  "successful_node_ids t \<subseteq> successful_node_ids (layers_loop g layers t)"
proof (induction layers arbitrary: t)
  case Nil
  then show ?case by simp
next
  case (Cons layer_nodes layers)
  define t' where "t' = layer_loop g layer_nodes t"
  define t'' where "t'' = t'\<lparr>outside := update_successful_nodes_cache g
       (filter (\<lambda>i. i \<in> successful_node_ids t') (remdups (map node_info_id layer_nodes)))
       (outside t')\<rparr>"
  have m: "successful_node_ids t \<subseteq> successful_node_ids t'"
    unfolding t'_def by (rule layer_loop_successful_mono)
  have e: "layers_loop g (layer_nodes # layers) t
             = (if finalize_pipeline_task t' \<noteq> None then t' else layers_loop g layers t'')"
    by (simp add: t'_def t''_def Let_def)
  have "successful_node_ids t'' = successful_node_ids t'" by (simp add: t''_def)
  then show ?case using m Cons.IH[of t''] unfolding e by auto
qed

text \<open>
  Claim C3.  Let a node reach fresh resolution at some point of a tick (not in the
  successful-nodes cache, upstream nodes successful, not stopping or stopped, not a pure
  service node, no tracked task, no active execution, and a latest execution, if there is
  one, that neither completes nor aborts the node), and let input resolution return
  nothing.  Then the decision for the node is exactly one update task with state SKIPPED
  (so neither a finalize nor an execution task), with the node's id added to
  \<^verbatim>\<open>successful_node_ids\<close>; the tick goes on with the rest of the layer from that update task
  and that enlarged set, so the nodes decided after it are given a set that holds its id;
  and the set keeps the id through the rest of the layer and through all later layers of
  the same tick.
\<close>

theorem skipped_when_nothing_resolved:
  assumes "in_successful_nodes_cache g (NodeUid_from_pipeline_node (gen_pipeline g) node)
             (outside t) = (False, w1)"
    and "upstream_nodes_successful node (successful_node_ids t)"
    and "get_node_state_fn g w1 (NodeUid_from_pipeline_node (gen_pipeline g) node) = node_state"
    and "node_state \<noteq> NodeState_STOPPING" and "node_state \<noteq> NodeState_STOPPED"
    and "ensure_node_services_if_pure g (node_info_id node) w1 = (None, w2)"
    and "\<not> is_task_id_tracked_fn g w2 (exec_node_task_id_from_pipeline_node (gen_pipeline g) node)"
    and "\<forall>e. get_latest_execution (get_executions_fn g w2 node) = Some e \<longrightarrow>
           \<not> is_execution_successful e \<and>
           (is_execution_active e \<or> node_state = NodeState_STARTING)"
    and "filter is_execution_active (get_executions_fn g w2 node) = []"
    and "generate_resolved_info_fn g w2 node = (None, w3)"
    and "finalize_pipeline_task t = None"
  shows "generate_tasks_for_node g node (successful_node_ids t) (outside t)
           = ([UpdateNodeStateTask (NodeUid_from_pipeline_node (gen_pipeline g) node)
                 NodeState_SKIPPED None],
              insert (node_info_id node) (successful_node_ids t), w3) \<and>
         layer_loop g (node # layer_nodes) t
           = layer_loop g layer_nodes
               (t\<lparr>update_node_state_tasks :=
                    update_node_state_tasks t
                    @ [UpdateNodeStateTask (NodeUid_from_pipeline_node (gen_pipeline g) node)
                         NodeState_SKIPPED None],
                  successful_node_ids := insert (node_info_id node) (successful_node_ids t),
                  outside := w3\<rparr>) \<and>
         node_info_id node \<in> successful_node_ids (layer_loop g (node # layer_nodes) t) \<and>
         node_info_id node
           \<in> successful_node_ids (layers_loop g ((node # layer_nodes) # layers) t)"
proof -
  let ?uid = "NodeUid_from_pipeline_node (gen_pipeline g) node"
  let ?ex = "get_executions_fn g w2 node"
  let ?t1 = "t\<lparr>update_node_state_tasks :=
                 update_node_state_tasks t @ [UpdateNodeStateTask ?uid NodeState_SKIPPED None],
               successful_node_ids := insert (node_info_id node) (successful_node_ids t),
               outside := w3\<rparr>"
  have step: "generate_tasks_for_node g node (successful_node_ids t) (outside t)
                = tasks_from_executions g node node_state (successful_node_ids t) w2"
    using assms(1-7) by (simp add: generate_tasks_for_node_def Let_def)
  have act: "generate_task_from_active_execution g w2 (gen_pipeline g) node ?ex = (None, w2)"
    using assms(9) by (simp add: generate_task_from_active_execution_def)
  have res: "resolve_inputs_and_generate_tasks_for_node g node ?ex (successful_node_ids t) w2
               = ([UpdateNodeStateTask ?uid NodeState_SKIPPED None],
                  insert (node_info_id node) (successful_node_ids t), w3)"
    using assms(10) by (simp add: resolve_inputs_and_generate_tasks_for_node_def)
  have tfe: "tasks_from_executions g node node_state (successful_node_ids t) w2
               = ([UpdateNodeStateTask ?uid NodeState_SKIPPED None],
                  insert (node_info_id node) (successful_node_ids t), w3)"
  proof (cases "get_latest_execution ?ex")
    case None
    then show ?thesis by (simp add: tasks_from_executions_def Let_def act res)
  next
    case (Some e)
    with assms(8) have "\<not> is_execution_successful e"
      "is_execution_active e \<or> node_state = NodeState_STARTING" by auto
    then show ?thesis using Some by (auto simp: tasks_from_executions_def Let_def act res)
  qed
  have decision: "generate_tasks_for_node g node (successful_node_ids t) (outside t)
           = ([UpdateNodeStateTask ?uid NodeState_SKIPPED None],
              insert (node_info_id node) (successful_node_ids t), w3)"
    unfolding step by (rule tfe)
  have cl: "classify_tasks [UpdateNodeStateTask ?uid NodeState_SKIPPED None]
              (t\<lparr>successful_node_ids := insert (node_info_id node) (successful_node_ids t),
                 outside := w3\<rparr>) = ?t1"
    by simp
  have fin: "finalize_pipeline_task ?t1 = None" using assms(11) by simp
  have layer: "layer_loop g (node # layer_nodes) t = layer_loop g layer_nodes ?t1"
    using fin by (simp add: decision cl Let_def del: classify_tasks.simps)
  have in1: "node_info_id node \<in> successful_node_ids ?t1" by simp
  have in2: "node_info_id node \<in> successful_node_ids (layer_loop g (node # layer_nodes) t)"
    unfolding layer using in1 layer_loop_successful_mono[of ?t1 g layer_nodes] by blast
  define t' where "t' = layer_loop g (node # layer_nodes) t"
  define t'' where "t'' = t'\<lparr>outside := update_successful_nodes_cache g
       (filter (\<lambda>i. i \<in> successful_node_ids t')
          (remdups (map node_info_id (node # layer_nodes))))
       (outside t')\<rparr>"
  have e: "layers_loop g ((node # layer_nodes) # layers) t
             = (if finalize_pipeline_task t' \<noteq> None then t' else layers_loop g layers t'')"
    by (simp add: t'_def t''_def Let_def del: layer_loop.simps)
  have "node_info_id node \<in> successful_node_ids t''" using in2 by (simp add: t''_def t'_def)
  then have "node_info_id node \<in> successful_node_ids (layers_loop g layers t'')"
    using layers_loop_successful_mono[of t'' g layers] by blast
  then have in3: "node_info_id node
           \<in> successful_node_ids (layers_loop g ((node # layer_nodes) # layers) t)"
    unfolding e using in2 by (simp add: t'_def)
  from decision layer in2 in3 show ?thesis by (intro conjI)
qed

text \<open>
  Claim C4, as amended.  After the execution has been registered (with the resolved
  contexts only), the cache context is computed whatever \<^verbatim>\<open>enable_cache\<close> says, and it is
  appended to the context list that the cached publication and every execution task
  carry.  \<^verbatim>\<open>enable_cache\<close> decides only whether cached outputs are looked up: with caching
  off, or with no cached outputs, the node is launched; with caching on and cached
  outputs found, the execution is published as cached and the node completes.
\<close>

theorem cache_context_always_attached:
  assumes "generate_resolved_info_fn g w node = (Some resolved_info, w1)"
    and "resolved_input_artifacts resolved_info = Some input_artifacts"
    and "register_execution_fn g w1 (node_info_type node) (resolved_contexts resolved_info)
           input_artifacts (resolved_exec_properties resolved_info) = (execution, w2)"
    and "get_cache_context_fn g w2 node (pipeline_info_id (gen_pipeline g))
           (get_executor_spec (gen_pipeline g) (node_info_id node)) input_artifacts
           (generate_output_artifacts_fn g (gen_pipeline g) node (execution_id execution))
           (resolved_exec_properties resolved_info) = (cache_context, w3)"
  shows "(enable_cache node \<and> get_cached_outputs_fn g w3 cache_context = Some outputs \<longrightarrow>
            resolve_inputs_and_generate_tasks_for_node g node node_executions successful w =
              ([UpdateNodeStateTask (NodeUid_from_pipeline_node (gen_pipeline g) node)
                  NodeState_COMPLETE None],
               insert (node_info_id node) successful,
               record_state_change_time_fn g
                 (publish_cached_execution_fn g w3
                    (resolved_contexts resolved_info @ [cache_context])
                    (execution_id execution) outputs))) \<and>
         (\<not> enable_cache node \<or> get_cached_outputs_fn g w3 cache_context = None \<longrightarrow>
            resolve_inputs_and_generate_tasks_for_node g node node_executions successful w =
              launch_tasks g node resolved_info input_artifacts execution
                (generate_output_artifacts_fn g (gen_pipeline g) node (execution_id execution))
                (resolved_contexts resolved_info @ [cache_context]) successful w3) \<and>
         (\<forall>task. ExecNodeTask task \<in> set (fst (resolve_inputs_and_generate_tasks_for_node g node
                                             node_executions successful w))
            \<longrightarrow> task_contexts task = resolved_contexts resolved_info @ [cache_context])"
proof -
  have l: "ExecNodeTask task \<in> set (fst (launch_tasks g node resolved_info input_artifacts
              execution oa ctxs successful w3)) \<Longrightarrow> task_contexts task = ctxs" for task oa ctxs
    by (auto simp: launch_tasks_def Let_def abort_task_def split: prod.splits if_splits)
  show ?thesis
  proof (cases "enable_cache node \<and> get_cached_outputs_fn g w3 cache_context \<noteq> None")
    case True
    then obtain co where co: "get_cached_outputs_fn g w3 cache_context = Some co" by auto
    with True assms show ?thesis
      by (simp add: resolve_inputs_and_generate_tasks_for_node_def Let_def)
  next
    case False
    then have c: "(if enable_cache node then get_cached_outputs_fn g w3 cache_context else None)
                    = None" by auto
    have r: "resolve_inputs_and_generate_tasks_for_node g node node_executions successful w =
              launch_tasks g node resolved_info input_artifacts execution
                (generate_output_artifacts_fn g (gen_pipeline g) node (execution_id execution))
                (resolved_contexts resolved_info @ [cache_context]) successful w3"
      using assms c by (simp add: resolve_inputs_and_generate_tasks_for_node_def Let_def)
    show ?thesis unfolding r using False l by auto
  qed
qed


subsection \<open>The decisions on concrete nodes\<close>

text \<open>
  The failed-execution decision at two concrete inputs: node state RUNNING with a failed
  latest execution that carries an error message, and node state STARTING with that failed
  execution only, where the decision is fresh resolution and an execution is registered.
\<close>

theorem failed_latest_execution_decision_witness:
  "generate_tasks_for_node
     (example_generator (\<lambda>_. NodeState_RUNNING) (\<lambda>_. [failed_execution])
        (\<lambda>_. Some example_resolved_info) None) node_A {} []
     = ([UpdateNodeStateTask (NodeUid ''p'' ''A'') NodeState_FAILED
           (Some \<lparr>status_code = Code_ABORTED, status_message = ''boom''\<rparr>),
         FinalizePipelineTask ''p''
           \<lparr>status_code = Code_ABORTED,
            status_message = ''Aborting pipeline execution due to node execution failure; error: node failed; node uid: A; error: boom''\<rparr>],
        {}, []) \<and>
   generate_tasks_for_node
     (example_generator (\<lambda>_. NodeState_STARTING) (\<lambda>_. [failed_execution])
        (\<lambda>_. Some example_resolved_info) None) node_A {} []
     = resolve_inputs_and_generate_tasks_for_node
         (example_generator (\<lambda>_. NodeState_STARTING) (\<lambda>_. [failed_execution])
            (\<lambda>_. Some example_resolved_info) None) node_A [failed_execution] {} [] \<and>
   map is_exec_node_task (fst (generate_tasks_for_node
     (example_generator (\<lambda>_. NodeState_STARTING) (\<lambda>_. [failed_execution])
        (\<lambda>_. Some example_resolved_info) None) node_A {} [])) = [False, True]"
proof -
  let ?g1 = "example_generator (\<lambda>_. NodeState_RUNNING) (\<lambda>_. [failed_execution])
        (\<lambda>_. Some example_resolved_info) None"
  let ?g2 = "example_generator (\<lambda>_. NodeState_STARTING) (\<lambda>_. [failed_execution])
        (\<lambda>_. Some example_resolved_info) None"
  have e1: "\<not> is_execution_successful failed_execution" by code_simp
  have e2: "\<not> is_execution_active failed_execution" by code_simp
  have u: "upstream_nodes_successful node_A {}" by code_simp
  have s4: "NodeState_RUNNING \<noteq> NodeState_STOPPING" "NodeState_RUNNING \<noteq> NodeState_STOPPED"
    "NodeState_STARTING \<noteq> NodeState_STOPPING" "NodeState_STARTING \<noteq> NodeState_STOPPED"
    by simp_all
  have a1: "in_successful_nodes_cache ?g1 (NodeUid_from_pipeline_node (gen_pipeline ?g1) node_A) []
              = (False, [])" by code_simp
  have a3: "get_node_state_fn ?g1 [] (NodeUid_from_pipeline_node (gen_pipeline ?g1) node_A)
              = NodeState_RUNNING" by code_simp
  have a6: "ensure_node_services_if_pure ?g1 (node_info_id node_A) [] = (None, [])" by code_simp
  have a7: "\<not> is_task_id_tracked_fn ?g1 []
              (exec_node_task_id_from_pipeline_node (gen_pipeline ?g1) node_A)" by code_simp
  have a8: "get_latest_execution (get_executions_fn ?g1 [] node_A) = Some failed_execution"
    by code_simp
  have b1: "in_successful_nodes_cache ?g2 (NodeUid_from_pipeline_node (gen_pipeline ?g2) node_A) []
              = (False, [])" by code_simp
  have b3: "get_node_state_fn ?g2 [] (NodeUid_from_pipeline_node (gen_pipeline ?g2) node_A)
              = NodeState_STARTING" by code_simp
  have b6: "ensure_node_services_if_pure ?g2 (node_info_id node_A) [] = (None, [])" by code_simp
  have b7: "\<not> is_task_id_tracked_fn ?g2 []
              (exec_node_task_id_from_pipeline_node (gen_pipeline ?g2) node_A)" by code_simp
  have b8: "get_latest_execution (get_executions_fn ?g2 [] node_A) = Some failed_execution"
    by code_simp
  note A = failed_latest_execution_decision[OF a1 u a3 s4(1) s4(2) a6 a7 a8 e1 e2]
  note B = failed_latest_execution_decision[OF b1 u b3 s4(3) s4(4) b6 b7 b8 e1 e2]
  have g2: "get_executions_fn ?g2 [] node_A = [failed_execution]" by code_simp
  have f2: "filter is_execution_active [failed_execution] = []" by code_simp
  have m1: "(case map_of (custom_properties failed_execution) EXECUTION_ERROR_MSG_KEY of
               Some v \<Rightarrow> v | None \<Rightarrow> []) = ''boom''" by code_simp
  have n1: "NodeUid_from_pipeline_node (gen_pipeline ?g1) node_A = NodeUid ''p'' ''A''"
    "gen_pipeline_uid ?g1 = ''p''"
    "str_NodeUid_fn ?g1 (NodeUid ''p'' ''A'') = ''A''"
    by code_simp+
  have p1: "generate_tasks_for_node ?g1 node_A {} []
     = ([UpdateNodeStateTask (NodeUid ''p'' ''A'') NodeState_FAILED
           (Some \<lparr>status_code = Code_ABORTED, status_message = ''boom''\<rparr>),
         FinalizePipelineTask ''p''
           \<lparr>status_code = Code_ABORTED,
            status_message = ''Aborting pipeline execution due to node execution failure; error: node failed; node uid: A; error: boom''\<rparr>],
        {}, [])"
    using A unfolding m1 n1 by simp
  have p2: "generate_tasks_for_node ?g2 node_A {} []
     = resolve_inputs_and_generate_tasks_for_node ?g2 node_A [failed_execution] {} []"
    using B g2 f2 by simp
  have p3: "map is_exec_node_task (fst (generate_tasks_for_node ?g2 node_A {} []))
              = [False, True]"
    by code_simp
  from p1 p2 p3 show ?thesis by (intro conjI)
qed

text \<open>
  Nothing resolved for node A of the two-node pipeline A \<open>\<rightarrow>\<close> B at the start of a tick: A
  is skipped and counted as successful, the layer of B is reached with A in the set, and B
  is launched in the same tick.
\<close>

theorem skipped_when_nothing_resolved_witness:
  "generate_tasks_for_node
     (example_generator (\<lambda>_. NodeState_STARTING) (\<lambda>_. [])
        (\<lambda>i. if i = ''A'' then None else Some example_resolved_info) None) node_A {} []
     = ([UpdateNodeStateTask (NodeUid ''p'' ''A'') NodeState_SKIPPED None], {''A''},
        [''generate_resolved_info'']) \<and>
   ''A'' \<in> successful_node_ids
     (layers_loop
        (example_generator (\<lambda>_. NodeState_STARTING) (\<lambda>_. [])
           (\<lambda>i. if i = ''A'' then None else Some example_resolved_info) None)
        [[node_A], [node_B]]
        \<lparr>exec_node_tasks = [], update_node_state_tasks = [], successful_node_ids = {},
         finalize_pipeline_task = None, outside = []\<rparr>) \<and>
   (case generate
        (example_generator (\<lambda>_. NodeState_STARTING) (\<lambda>_. [])
           (\<lambda>i. if i = ''A'' then None else Some example_resolved_info) None) [] of
      Inl e \<Rightarrow> []
    | Inr (tasks, w) \<Rightarrow> map is_exec_node_task tasks) = [False, False, True]"
proof -
  let ?g = "example_generator (\<lambda>_. NodeState_STARTING) (\<lambda>_. [])
        (\<lambda>i. if i = ''A'' then None else Some example_resolved_info) None"
  let ?t = "\<lparr>exec_node_tasks = [], update_node_state_tasks = [], successful_node_ids = {},
         finalize_pipeline_task = None, outside = []\<rparr> :: string list tick"
  have h1: "in_successful_nodes_cache ?g (NodeUid_from_pipeline_node (gen_pipeline ?g) node_A)
              (outside ?t) = (False, [])" by code_simp
  have h2: "upstream_nodes_successful node_A (successful_node_ids ?t)" by code_simp
  have h3: "get_node_state_fn ?g [] (NodeUid_from_pipeline_node (gen_pipeline ?g) node_A)
              = NodeState_STARTING" by code_simp
  have h4: "NodeState_STARTING \<noteq> NodeState_STOPPING" "NodeState_STARTING \<noteq> NodeState_STOPPED"
    by simp_all
  have h5: "ensure_node_services_if_pure ?g (node_info_id node_A) [] = (None, [])" by code_simp
  have h6: "\<not> is_task_id_tracked_fn ?g []
              (exec_node_task_id_from_pipeline_node (gen_pipeline ?g) node_A)" by code_simp
  have l: "get_latest_execution (get_executions_fn ?g [] node_A) = None" by code_simp
  have h7: "\<forall>e. get_latest_execution (get_executions_fn ?g [] node_A) = Some e \<longrightarrow>
           \<not> is_execution_successful e \<and>
           (is_execution_active e \<or> NodeState_STARTING = NodeState_STARTING)"
    unfolding l by simp
  have h8: "filter is_execution_active (get_executions_fn ?g [] node_A) = []" by code_simp
  have h9: "generate_resolved_info_fn ?g [] node_A = (None, [''generate_resolved_info''])"
    by code_simp
  have h10: "finalize_pipeline_task ?t = None" by simp
  note S = skipped_when_nothing_resolved[OF h1 h2 h3 h4 h5 h6 h7 h8 h9 h10, of "[]" "[[node_B]]"]
  have n: "NodeUid_from_pipeline_node (gen_pipeline ?g) node_A = NodeUid ''p'' ''A''"
    "node_info_id node_A = ''A''"
    by code_simp+
  have r: "generate_tasks_for_node ?g node_A {} []
     = ([UpdateNodeStateTask (NodeUid ''p'' ''A'') NodeState_SKIPPED None], {''A''},
        [''generate_resolved_info''])"
    using S[THEN conjunct1] unfolding n by simp
  have d: "''A'' \<in> successful_node_ids (layers_loop ?g [[node_A], [node_B]] ?t)"
    using S[THEN conjunct2, THEN conjunct2, THEN conjunct2] unfolding n .
  have t: "(case generate ?g [] of Inl e \<Rightarrow> [] | Inr (tasks, w) \<Rightarrow> map is_exec_node_task tasks)
             = [False, False, True]"
    by code_simp
  from r d t show ?thesis by (intro conjI)
qed

text \<open>
  Claim C4 as it was stated fails: with \<^verbatim>\<open>enable_cache\<close> false the cache context is still
  computed (the call is among the writes) and it is the last context of the execution
  task.
\<close>

theorem cache_context_without_caching_counterexample:
  "\<not> enable_cache node_A \<and>
   resolve_inputs_and_generate_tasks_for_node
     (example_generator (\<lambda>_. NodeState_STARTING) (\<lambda>_. []) (\<lambda>_. Some example_resolved_info) None)
     node_A [] {} []
     = ([UpdateNodeStateTask (NodeUid ''p'' ''A'') NodeState_RUNNING None,
         ExecNodeTask
           \<lparr>task_node_uid = NodeUid ''p'' ''A'', task_execution_id = 7,
            task_contexts = [example_pipeline_context, example_cache_context],
            task_input_artifacts = [], task_exec_properties = [], task_output_artifacts = [],
            task_executor_output_uri = ''executor_output'',
            task_stateful_working_dir = ''stateful_working_dir'',
            task_pipeline = example_pipeline\<rparr>],
        {},
        [''generate_resolved_info'', ''register_execution'', ''get_cache_context'',
         ''make_output_dirs''])"
  by code_simp

text \<open>
  The amended claim at two concrete nodes: caching off (the node is launched with the
  cache context attached) and caching on with cached outputs (published as cached).
\<close>

theorem cache_context_always_attached_witness:
  "resolve_inputs_and_generate_tasks_for_node
     (example_generator (\<lambda>_. NodeState_STARTING) (\<lambda>_. []) (\<lambda>_. Some example_resolved_info) None)
     node_A [] {} []
     = launch_tasks
         (example_generator (\<lambda>_. NodeState_STARTING) (\<lambda>_. []) (\<lambda>_. Some example_resolved_info)
            None)
         node_A example_resolved_info []
         (example_execution 7 Execution_ACTIVE []) []
         [example_pipeline_context, example_cache_context] {}
         [''generate_resolved_info'', ''register_execution'', ''get_cache_context''] \<and>
   resolve_inputs_and_generate_tasks_for_node
     (example_generator (\<lambda>_. NodeState_STARTING) (\<lambda>_. []) (\<lambda>_. Some example_resolved_info)
        (Some []))
     (node_A\<lparr>enable_cache := True\<rparr>) [] {} []
     = ([UpdateNodeStateTask (NodeUid ''p'' ''A'') NodeState_COMPLETE None], {''A''},
        [''generate_resolved_info'', ''register_execution'', ''get_cache_context'',
         ''publish_cached_execution'', ''record_state_change_time''])"
proof -
  let ?g = "example_generator (\<lambda>_. NodeState_STARTING) (\<lambda>_. [])
              (\<lambda>_. Some example_resolved_info) None"
  let ?h = "example_generator (\<lambda>_. NodeState_STARTING) (\<lambda>_. [])
              (\<lambda>_. Some example_resolved_info) (Some [])"
  let ?n = "node_A\<lparr>enable_cache := True\<rparr>"
  let ?e = "example_execution 7 Execution_ACTIVE []"
  have a1: "generate_resolved_info_fn ?g [] node_A
              = (Some example_resolved_info, [''generate_resolved_info''])" by code_simp
  have a2: "resolved_input_artifacts example_resolved_info = Some []" by code_simp
  have a3: "register_execution_fn ?g [''generate_resolved_info''] (node_info_type node_A)
              (resolved_contexts example_resolved_info) []
              (resolved_exec_properties example_resolved_info)
              = (?e, [''generate_resolved_info'', ''register_execution''])" by code_simp
  have a4: "get_cache_context_fn ?g [''generate_resolved_info'', ''register_execution''] node_A
              (pipeline_info_id (gen_pipeline ?g))
              (get_executor_spec (gen_pipeline ?g) (node_info_id node_A)) []
              (generate_output_artifacts_fn ?g (gen_pipeline ?g) node_A (execution_id ?e))
              (resolved_exec_properties example_resolved_info)
              = (example_cache_context,
                 [''generate_resolved_info'', ''register_execution'', ''get_cache_context''])"
    by code_simp
  have b1: "generate_resolved_info_fn ?h [] ?n
              = (Some example_resolved_info, [''generate_resolved_info''])" by code_simp
  have b3: "register_execution_fn ?h [''generate_resolved_info''] (node_info_type ?n)
              (resolved_contexts example_resolved_info) []
              (resolved_exec_properties example_resolved_info)
              = (?e, [''generate_resolved_info'', ''register_execution''])" by code_simp
  have b4: "get_cache_context_fn ?h [''generate_resolved_info'', ''register_execution''] ?n
              (pipeline_info_id (gen_pipeline ?h))
              (get_executor_spec (gen_pipeline ?h) (node_info_id ?n)) []
              (generate_output_artifacts_fn ?h (gen_pipeline ?h) ?n (execution_id ?e))
              (resolved_exec_properties example_resolved_info)
              = (example_cache_context,
                 [''generate_resolved_info'', ''register_execution'', ''get_cache_context''])"
    by code_simp
  note A = cache_context_always_attached[OF a1 a2 a3 a4, of "[]" "[]" "{}"]
  note B = cache_context_always_attached[OF b1 a2 b3 b4, of "[]" "[]" "{}"]
  have c: "\<not> enable_cache node_A" "enable_cache ?n"
    "get_cached_outputs_fn ?h [''generate_resolved_info'', ''register_execution'',
        ''get_cache_context''] example_cache_context = Some []"
    "resolved_contexts example_resolved_info @ [example_cache_context]
       = [example_pipeline_context, example_cache_context]"
    "generate_output_artifacts_fn ?g (gen_pipeline ?g) node_A (execution_id ?e) = []"
    "node_info_id ?n = ''A''"
    "NodeUid_from_pipeline_node (gen_pipeline ?h) ?n = NodeUid ''p'' ''A''"
    "record_state_change_time_fn ?h
       (publish_cached_execution_fn ?h
          [''generate_resolved_info'', ''register_execution'', ''get_cache_context'']
          [example_pipeline_context, example_cache_context] (execution_id ?e) [])
       = [''generate_resolved_info'', ''register_execution'', ''get_cache_context'',
          ''publish_cached_execution'', ''record_state_change_time'']"
    by code_simp+
  from A c have p1: "resolve_inputs_and_generate_tasks_for_node ?g node_A [] {} []
     = launch_tasks ?g node_A example_resolved_info [] ?e []
         [example_pipeline_context, example_cache_context] {}
         [''generate_resolved_info'', ''register_execution'', ''get_cache_context'']"
    by simp
  from B c have p2: "resolve_inputs_and_generate_tasks_for_node ?h ?n [] {} []
     = ([UpdateNodeStateTask (NodeUid ''p'' ''A'') NodeState_COMPLETE None], {''A''},
        [''generate_resolved_info'', ''register_execution'', ''get_cache_context'',
         ''publish_cached_execution'', ''record_state_change_time''])"
    by simp
  from p1 p2 show ?thesis by simp
qed

section \<open>Properties of the artifact recycler\<close>

subsection \<open>Snapshot\<close>

text \<open>
  Claim C9.  When the node's \<^verbatim>\<open>run\<close> has chief settings that name neither a base run nor the
  latest-run strategy, \<^verbatim>\<open>snapshot\<close> raises \<^verbatim>\<open>ValueError\<close> and no connection has been
  opened; when the node has no chief settings, \<^verbatim>\<open>snapshot\<close> returns and neither a
  connection is opened nor the store touched.
\<close>

theorem snapshot_without_strategy_or_chief:
  "(partial_run_option node = Run (Some StrategyNotSet) \<longrightarrow>
      snapshot set_iteration node connection pipeline
        = (Inl (ValueError ''artifact_reuse_strategy not set in ChiefSettings.''), connection)) \<and>
   (\<not> HasField_chief_settings (partial_run_option node) \<longrightarrow>
      snapshot set_iteration node connection pipeline = (Inr (), connection))"
proof (intro conjI impI)
  assume "partial_run_option node = Run (Some StrategyNotSet)"
  then show "snapshot set_iteration node connection pipeline
        = (Inl (ValueError ''artifact_reuse_strategy not set in ChiefSettings.''), connection)"
    by (simp add: snapshot_def)
next
  assume a: "\<not> HasField_chief_settings (partial_run_option node)"
  show "snapshot set_iteration node connection pipeline = (Inr (), connection)"
  proof (cases "partial_run_option node")
    case PartialRunNotSet
    then show ?thesis by (simp add: snapshot_def)
  next
    case (Run cs)
    with a have "cs = None" by (cases cs) auto
    with Run show ?thesis by (simp add: snapshot_def)
  next
    case (Skip b)
    then show ?thesis by (simp add: snapshot_def)
  qed
qed

text \<open>
  Both cases on the marked pipeline A \<open>\<rightarrow>\<close> B \<open>\<rightarrow>\<close> C: node C, which runs without chief
  settings, and a copy of node B whose chief settings are empty.
\<close>

theorem snapshot_without_strategy_or_chief_witness:
  "snapshot example_iteration (abc_node_B\<lparr>partial_run_option := Run (Some StrategyNotSet)\<rparr>)
     \<lparr>connections_opened = 0, connected_store = example_store\<rparr> abc_marked
     = (Inl (ValueError ''artifact_reuse_strategy not set in ChiefSettings.''),
        \<lparr>connections_opened = 0, connected_store = example_store\<rparr>) \<and>
   snapshot example_iteration (abc_node_C\<lparr>partial_run_option := Run None\<rparr>)
     \<lparr>connections_opened = 0, connected_store = example_store\<rparr> abc_marked
     = (Inr (), \<lparr>connections_opened = 0, connected_store = example_store\<rparr>) \<and>
   connections_opened (snd (snapshot example_iteration
     (abc_node_B\<lparr>partial_run_option := Run (Some LatestPipelineRunStrategy)\<rparr>)
     \<lparr>connections_opened = 0, connected_store = example_store\<rparr> abc_marked)) = 1"
proof -
  let ?b = "abc_node_B\<lparr>partial_run_option := Run (Some StrategyNotSet)\<rparr>"
  let ?c = "abc_node_C\<lparr>partial_run_option := Run None\<rparr>"
  have hb: "partial_run_option ?b = Run (Some StrategyNotSet)" by simp
  have hc: "\<not> HasField_chief_settings (partial_run_option ?c)" by simp
  have o: "connections_opened (snd (snapshot example_iteration
     (abc_node_B\<lparr>partial_run_option := Run (Some LatestPipelineRunStrategy)\<rparr>)
     \<lparr>connections_opened = 0, connected_store = example_store\<rparr> abc_marked)) = 1"
    by code_simp
  from snapshot_without_strategy_or_chief[of ?b example_iteration
         "\<lparr>connections_opened = 0, connected_store = example_store\<rparr>" abc_marked] hb
       snapshot_without_strategy_or_chief[of ?c example_iteration
         "\<lparr>connections_opened = 0, connected_store = example_store\<rparr>" abc_marked] hc o
  show ?thesis by blast
qed

section \<open>The metadata store under the recycler\<close>

subsection \<open>Fresh ids\<close>

lemma foldr_max_ge: "x \<in> set xs \<Longrightarrow> x \<le> foldr max xs (0::nat)"
  by (induction xs) auto

lemma fresh_context_id_gt:
  "c \<in> set (store_contexts s) \<Longrightarrow> context_id c < fresh_context_id s"
  unfolding fresh_context_id_def
  using foldr_max_ge[of "context_id c" "map context_id (store_contexts s)"] by auto

lemma fresh_execution_id_gt:
  "x \<in> set (store_executions s) \<Longrightarrow> execution_id (stored x) < fresh_execution_id s"
  unfolding fresh_execution_id_def
  using foldr_max_ge[of "execution_id (stored x)"
          "map (\<lambda>x. execution_id (stored x)) (store_executions s)"] by auto

subsection \<open>The dictionary of run contexts\<close>

lemma dict_set_map_of: "map_of (ordered_dict_set k v kvs) = (map_of kvs)(k \<mapsto> v)"
proof (induction kvs)
  case Nil
  then show ?case by simp
next
  case (Cons a kvs)
  obtain k' v' where a: "a = (k', v')" by (cases a)
  show ?case using Cons.IH unfolding a by (cases "k' = k") auto
qed

lemma type_names_differ:
  "PIPELINE_RUN_CONTEXT_TYPE_NAME \<noteq> NODE_CONTEXT_TYPE_NAME"
  "PIPELINE_RUN_CONTEXT_TYPE_NAME \<noteq> PIPELINE_CONTEXT_TYPE_NAME"
  "NODE_CONTEXT_TYPE_NAME \<noteq> PIPELINE_CONTEXT_TYPE_NAME"
  by (simp_all add: PIPELINE_RUN_CONTEXT_TYPE_NAME_def NODE_CONTEXT_TYPE_NAME_def
        PIPELINE_CONTEXT_TYPE_NAME_def)

lemma find_append_other:
  "\<not> P x \<Longrightarrow> find P (xs @ [x]) = find P xs"
  by (induction xs) auto

lemma find_SomeD: "find P xs = Some x \<Longrightarrow> x \<in> set xs \<and> P x"
  by (induction xs) (auto split: if_splits)

lemma find_None_D: "find P xs = None \<Longrightarrow> x \<in> set xs \<Longrightarrow> \<not> P x"
  by (induction xs) (auto split: if_splits)

subsection \<open>Registration of the context of the new run\<close>

lemma register_context_cases:
  assumes "register_context_if_not_exists s ty name = (c, s')"
  shows "context_type c = ty \<and> context_name c = name \<and>
         ((c \<in> set (store_contexts s) \<and> s' = s) \<or>
          (context_id c = fresh_context_id s \<and>
           s' = s\<lparr>store_contexts := store_contexts s @ [c]\<rparr>))"
proof (cases "get_context_by_type_and_name s ty name")
  case None
  then show ?thesis using assms by (auto simp: register_context_if_not_exists_def Let_def)
next
  case (Some c0)
  then have "c = c0" "s' = s" using assms by (auto simp: register_context_if_not_exists_def)
  moreover have "c0 \<in> set (store_contexts s) \<and> context_type c0 = ty \<and> context_name c0 = name"
    using find_SomeD[OF Some[unfolded get_context_by_type_and_name_def]] by simp
  ultimately show ?thesis by simp
qed

lemma well_formed_add_context:
  assumes "well_formed_store s" "context_id c = fresh_context_id s"
  shows "well_formed_store (s\<lparr>store_contexts := store_contexts s @ [c]\<rparr>)"
proof -
  have "context_id c \<notin> context_id ` set (store_contexts s)"
    using fresh_context_id_gt[of _ s] assms(2) by force
  then show ?thesis using assms(1) by (auto simp: well_formed_store_def)
qed

lemma fresh_id_not_associated:
  assumes "well_formed_store s" "x \<in> set (store_executions s)"
  shows "fresh_context_id s \<notin> set (associated_context_ids x)"
proof
  assume "fresh_context_id s \<in> set (associated_context_ids x)"
  then have "fresh_context_id s \<in> context_id ` set (store_contexts s)"
    using assms by (auto simp: well_formed_store_def)
  then show False using fresh_context_id_gt[of _ s] by force
qed

lemma contexts_by_execution_add_context:
  assumes "well_formed_store s" "context_id c = fresh_context_id s"
  shows "get_contexts_by_execution (s\<lparr>store_contexts := store_contexts s @ [c]\<rparr>) eid
           = get_contexts_by_execution s eid"
  using fresh_id_not_associated[OF assms(1)] assms(2)
  by (auto simp: get_contexts_by_execution_def)

text \<open>What \<^verbatim>\<open>_get_pipeline_run_context(new_run_id, register_if_not_found=True)\<close> leaves.\<close>

lemma get_or_register_props:
  assumes inv: "recycler_inv r s" and wf: "well_formed_store s"
    and g: "get_or_register_pipeline_run_context r s (recycler_new_run_id r) = (nr, r', s')"
  shows "registered r' s' nr" "well_formed_store s'"
    "store_executions s' = store_executions s"
    "store_parent_contexts s' = store_parent_contexts s"
    "recycler_pipeline_name r' = recycler_pipeline_name r"
    "recycler_pipeline_context r' = recycler_pipeline_context r"
    "recycler_new_run_id r' = recycler_new_run_id r"
    "context_type nr = PIPELINE_RUN_CONTEXT_TYPE_NAME"
    "context_name nr = recycler_new_run_id r"
    "(r' = r \<and> s' = s) \<or>
     (map_of (recycler_pipeline_run_contexts r) (recycler_new_run_id r) = None \<and>
      r' = r\<lparr>recycler_pipeline_run_contexts :=
              ordered_dict_set (recycler_new_run_id r) nr (recycler_pipeline_run_contexts r)\<rparr> \<and>
      context_id nr = fresh_context_id s \<and>
      s' = s\<lparr>store_contexts := store_contexts s @ [nr]\<rparr>)"
proof -
  let ?new = "recycler_new_run_id r"
  let ?d = "recycler_pipeline_run_contexts r"
  have all: "registered r' s' nr \<and> well_formed_store s' \<and>
    store_executions s' = store_executions s \<and>
    store_parent_contexts s' = store_parent_contexts s \<and>
    recycler_pipeline_name r' = recycler_pipeline_name r \<and>
    recycler_pipeline_context r' = recycler_pipeline_context r \<and>
    recycler_new_run_id r' = recycler_new_run_id r \<and>
    context_type nr = PIPELINE_RUN_CONTEXT_TYPE_NAME \<and>
    context_name nr = recycler_new_run_id r \<and>
    ((r' = r \<and> s' = s) \<or>
     (map_of ?d ?new = None \<and>
      r' = r\<lparr>recycler_pipeline_run_contexts := ordered_dict_set ?new nr ?d\<rparr> \<and>
      context_id nr = fresh_context_id s \<and>
      s' = s\<lparr>store_contexts := store_contexts s @ [nr]\<rparr>))"
  proof (cases "map_of ?d ?new")
    case (Some c)
    then have e: "nr = c" "r' = r" "s' = s"
      using g by (auto simp: get_or_register_pipeline_run_context_def)
    have "context_type c = PIPELINE_RUN_CONTEXT_TYPE_NAME \<and> context_name c = ?new"
      using inv Some by (auto simp: recycler_inv_def)
    then show ?thesis using e inv wf Some by (simp add: registered_def)
  next
    case None
    obtain c s1 where reg: "register_context_if_not_exists s PIPELINE_RUN_CONTEXT_TYPE_NAME ?new
                              = (c, s1)"
      by (cases "register_context_if_not_exists s PIPELINE_RUN_CONTEXT_TYPE_NAME ?new")
    have e: "nr = c" "s' = s1"
      "r' = r\<lparr>recycler_pipeline_run_contexts := ordered_dict_set ?new c ?d\<rparr>"
      using g None reg by (auto simp: get_or_register_pipeline_run_context_def)
    note rc = register_context_cases[OF reg]
    have ty: "context_type c = PIPELINE_RUN_CONTEXT_TYPE_NAME" and nm: "context_name c = ?new"
      using rc by auto
    have notin: "c \<notin> set (store_contexts s)"
    proof
      assume "c \<in> set (store_contexts s)"
      then have "map_of ?d (context_name c) \<noteq> None"
        using inv ty by (auto simp: recycler_inv_def)
      then show False using None nm by simp
    qed
    then have fresh: "context_id c = fresh_context_id s"
      and s1: "s1 = s\<lparr>store_contexts := store_contexts s @ [c]\<rparr>"
      using rc by auto
    have wf1: "well_formed_store s1" unfolding s1 by (rule well_formed_add_context[OF wf fresh])
    have inv1: "recycler_inv r' s1"
      using inv ty nm unfolding e(3) s1
      by (auto simp: recycler_inv_def dict_set_map_of)
    have reg1: "registered r' s1 c"
      using inv1 unfolding registered_def e(3) by (simp add: dict_set_map_of)
    show ?thesis using reg1 wf1 ty nm None fresh unfolding e(1,2) by (simp add: e(3) s1)
  qed
  show "registered r' s' nr" "well_formed_store s'"
    "store_executions s' = store_executions s"
    "store_parent_contexts s' = store_parent_contexts s"
    "recycler_pipeline_name r' = recycler_pipeline_name r"
    "recycler_pipeline_context r' = recycler_pipeline_context r"
    "recycler_new_run_id r' = recycler_new_run_id r"
    "context_type nr = PIPELINE_RUN_CONTEXT_TYPE_NAME"
    "context_name nr = recycler_new_run_id r"
    "(r' = r \<and> s' = s) \<or>
     (map_of (recycler_pipeline_run_contexts r) (recycler_new_run_id r) = None \<and>
      r' = r\<lparr>recycler_pipeline_run_contexts :=
              ordered_dict_set (recycler_new_run_id r) nr (recycler_pipeline_run_contexts r)\<rparr> \<and>
      context_id nr = fresh_context_id s \<and>
      s' = s\<lparr>store_contexts := store_contexts s @ [nr]\<rparr>)"
    using all by blast+
qed

lemma registered_get_or_register:
  "registered r s nr \<Longrightarrow>
   get_or_register_pipeline_run_context r s (recycler_new_run_id r) = (nr, r, s)"
  by (simp add: registered_def get_or_register_pipeline_run_context_def)

lemma registered_facts:
  assumes "registered r s nr"
  shows "nr \<in> set (store_contexts s)" "context_type nr = PIPELINE_RUN_CONTEXT_TYPE_NAME"
    "context_name nr = recycler_new_run_id r"
    "recycler_pipeline_run_type_id r = PIPELINE_RUN_CONTEXT_TYPE_NAME" "recycler_inv r s"
  using assms by (auto simp: registered_def recycler_inv_def)

subsection \<open>The contexts of the cached execution\<close>

lemma cached_loop_registered:
  assumes "registered r s nr"
  shows "cached_execution_contexts_loop cs r s = (map (replace_run_context nr) cs, r, s)"
  using registered_get_or_register[OF assms] registered_facts(4)[OF assms]
  by (induction cs) (auto simp: replace_run_context_def)

lemma cached_loop_no_run_context:
  assumes "recycler_pipeline_run_type_id r = PIPELINE_RUN_CONTEXT_TYPE_NAME"
    and "\<forall>c\<in>set cs. context_type c \<noteq> PIPELINE_RUN_CONTEXT_TYPE_NAME"
  shows "cached_execution_contexts_loop cs r s = (cs, r, s)"
  using assms by (induction cs) auto

lemma cached_loop_registers:
  assumes inv: "recycler_inv r s" and wf: "well_formed_store s"
    and g: "get_or_register_pipeline_run_context r s (recycler_new_run_id r) = (nr, r', s')"
    and run: "\<exists>c\<in>set cs. context_type c = PIPELINE_RUN_CONTEXT_TYPE_NAME"
  shows "cached_execution_contexts_loop cs r s = (map (replace_run_context nr) cs, r', s')"
  using run
proof (induction cs)
  case Nil
  then show ?case by simp
next
  case (Cons c cs)
  have ty: "recycler_pipeline_run_type_id r = PIPELINE_RUN_CONTEXT_TYPE_NAME"
    using inv by (simp add: recycler_inv_def)
  show ?case
  proof (cases "context_type c = PIPELINE_RUN_CONTEXT_TYPE_NAME")
    case True
    have "cached_execution_contexts_loop cs r' s' = (map (replace_run_context nr) cs, r', s')"
      by (rule cached_loop_registered[OF get_or_register_props(1)[OF inv wf g]])
    then show ?thesis using True ty g by (simp add: replace_run_context_def)
  next
    case False
    then have "\<exists>c\<in>set cs. context_type c = PIPELINE_RUN_CONTEXT_TYPE_NAME"
      using Cons.prems by auto
    from Cons.IH[OF this] show ?thesis using False ty by (simp add: replace_run_context_def)
  qed
qed

text \<open>
  \<^verbatim>\<open>_cache_and_publish\<close> of an execution that has a run context: the new run is registered
  if it was not, and the store is recycled.
\<close>

lemma cache_and_publish_recycle:
  assumes inv: "recycler_inv r s" and wf: "well_formed_store s"
    and g: "get_or_register_pipeline_run_context r s (recycler_new_run_id r) = (nr, r', s')"
    and run: "\<exists>c\<in>set (get_contexts_by_execution s (execution_id e)).
                context_type c = PIPELINE_RUN_CONTEXT_TYPE_NAME"
  shows "cache_and_publish r s e = (r', recycle nr s' e)"
proof -
  have same: "get_contexts_by_execution s' (execution_id e)
                = get_contexts_by_execution s (execution_id e)"
    using get_or_register_props(10)[OF inv wf g] contexts_by_execution_add_context[OF wf]
    by auto
  have "get_cached_execution_contexts r s e = (recycled_contexts nr s' (execution_id e), r', s')"
    unfolding get_cached_execution_contexts_def recycled_contexts_def same
    by (rule cached_loop_registers[OF inv wf g run])
  then show ?thesis
    by (simp add: cache_and_publish_def recycle_def Let_def split: prod.splits)
qed

lemma cache_and_publish_registered:
  assumes "registered r s nr"
  shows "cache_and_publish r s e = (r, recycle nr s e)"
proof -
  have "get_cached_execution_contexts r s e = (recycled_contexts nr s (execution_id e), r, s)"
    unfolding get_cached_execution_contexts_def recycled_contexts_def
    by (rule cached_loop_registered[OF assms])
  then show ?thesis
    by (simp add: cache_and_publish_def recycle_def Let_def split: prod.splits)
qed

subsection \<open>The recycler as it is created\<close>

lemma foldl_dict_lookup:
  "map_of (foldl (\<lambda>result run_ctx. ordered_dict_set (context_name run_ctx) run_ctx result)
             acc cs) k = Some c
   \<Longrightarrow> map_of acc k = Some c \<or> (c \<in> set cs \<and> context_name c = k)"
proof (induction cs arbitrary: acc)
  case Nil
  then show ?case by simp
next
  case (Cons a cs)
  from Cons.prems have "map_of (foldl (\<lambda>result run_ctx.
          ordered_dict_set (context_name run_ctx) run_ctx result)
          (ordered_dict_set (context_name a) a acc) cs) k = Some c"
    by simp
  from Cons.IH[OF this]
  have "map_of (ordered_dict_set (context_name a) a acc) k = Some c
        \<or> (c \<in> set cs \<and> context_name c = k)" .
  then show ?case
  proof
    assume "map_of (ordered_dict_set (context_name a) a acc) k = Some c"
    then have "(if k = context_name a then Some a else map_of acc k) = Some c"
      by (simp add: dict_set_map_of)
    then show ?thesis by (cases "k = context_name a") auto
  next
    assume "c \<in> set cs \<and> context_name c = k"
    then show ?thesis by simp
  qed
qed

lemma foldl_dict_keeps:
  "map_of acc k \<noteq> None \<Longrightarrow>
   map_of (foldl (\<lambda>result run_ctx. ordered_dict_set (context_name run_ctx) run_ctx result)
             acc cs) k \<noteq> None"
  by (induction cs arbitrary: acc) (auto simp: dict_set_map_of)

lemma foldl_dict_knows:
  "c \<in> set cs \<Longrightarrow>
   map_of (foldl (\<lambda>result run_ctx. ordered_dict_set (context_name run_ctx) run_ctx result)
             acc cs) (context_name c) \<noteq> None"
proof (induction cs arbitrary: acc)
  case Nil
  then show ?case by simp
next
  case (Cons a cs)
  show ?case
  proof (cases "c = a")
    case True
    have "map_of (ordered_dict_set (context_name a) a acc) (context_name a) \<noteq> None"
      by (simp add: dict_set_map_of)
    from foldl_dict_keeps[OF this] show ?thesis using True by simp
  next
    case False
    then have "c \<in> set cs" using Cons.prems by simp
    from Cons.IH[OF this] show ?thesis by simp
  qed
qed

lemma ArtifactRecycler_init_inv:
  assumes "ArtifactRecycler_init s pipeline_name new_run_id = Inr r"
  shows "recycler_inv r s" "recycler_pipeline_name r = pipeline_name"
    "recycler_new_run_id r = new_run_id"
proof -
  define d where "d = foldl (\<lambda>result run_ctx.
              ordered_dict_set (context_name run_ctx) run_ctx result)
              [] (get_contexts_by_type s PIPELINE_RUN_CONTEXT_TYPE_NAME)"
  have init: "ArtifactRecycler_init s pipeline_name new_run_id =
     (case get_context_by_type_and_name s PIPELINE_CONTEXT_TYPE_NAME pipeline_name of
        None \<Rightarrow> Inl (LookupError (''pipeline '' @ pipeline_name @ '' not found in MLMD.''))
      | Some pipeline_context \<Rightarrow>
          Inr \<lparr>recycler_pipeline_name = pipeline_name,
               recycler_pipeline_context = pipeline_context,
               recycler_new_run_id = new_run_id,
               recycler_pipeline_run_type_id = PIPELINE_RUN_CONTEXT_TYPE_NAME,
               recycler_pipeline_run_contexts = d\<rparr>)"
    unfolding ArtifactRecycler_init_def d_def ..
  obtain pc where pc: "get_context_by_type_and_name s PIPELINE_CONTEXT_TYPE_NAME pipeline_name
                         = Some pc"
    using assms unfolding init
    by (cases "get_context_by_type_and_name s PIPELINE_CONTEXT_TYPE_NAME pipeline_name") auto
  have r: "r = \<lparr>recycler_pipeline_name = pipeline_name, recycler_pipeline_context = pc,
               recycler_new_run_id = new_run_id,
               recycler_pipeline_run_type_id = PIPELINE_RUN_CONTEXT_TYPE_NAME,
               recycler_pipeline_run_contexts = d\<rparr>"
    using assms unfolding init pc by simp
  have pcf: "pc \<in> set (store_contexts s) \<and> context_type pc = PIPELINE_CONTEXT_TYPE_NAME
             \<and> context_name pc = pipeline_name"
    using find_SomeD[OF pc[unfolded get_context_by_type_and_name_def]] by simp
  have a: "\<forall>k c. map_of d k = Some c \<longrightarrow>
             c \<in> set (store_contexts s) \<and> context_type c = PIPELINE_RUN_CONTEXT_TYPE_NAME
             \<and> context_name c = k"
  proof (intro allI impI)
    fix k c assume "map_of d k = Some c"
    from foldl_dict_lookup[OF this[unfolded d_def]]
    have "c \<in> set (get_contexts_by_type s PIPELINE_RUN_CONTEXT_TYPE_NAME) \<and> context_name c = k"
      by simp
    then show "c \<in> set (store_contexts s) \<and> context_type c = PIPELINE_RUN_CONTEXT_TYPE_NAME
             \<and> context_name c = k"
      by (simp add: get_contexts_by_type_def)
  qed
  have b: "\<forall>c\<in>set (store_contexts s). context_type c = PIPELINE_RUN_CONTEXT_TYPE_NAME \<longrightarrow>
             map_of d (context_name c) \<noteq> None"
  proof (intro ballI impI)
    fix c assume "c \<in> set (store_contexts s)" "context_type c = PIPELINE_RUN_CONTEXT_TYPE_NAME"
    then have "c \<in> set (get_contexts_by_type s PIPELINE_RUN_CONTEXT_TYPE_NAME)"
      by (simp add: get_contexts_by_type_def)
    then show "map_of d (context_name c) \<noteq> None" unfolding d_def by (rule foldl_dict_knows)
  qed
  have sel: "recycler_pipeline_run_type_id r = PIPELINE_RUN_CONTEXT_TYPE_NAME"
    "recycler_pipeline_context r = pc" "recycler_pipeline_run_contexts r = d"
    "recycler_pipeline_name r = pipeline_name" "recycler_new_run_id r = new_run_id"
    by (simp_all add: r)
  show "recycler_inv r s" unfolding recycler_inv_def sel using pcf a b by blast
  show "recycler_pipeline_name r = pipeline_name" "recycler_new_run_id r = new_run_id"
    by (fact sel)+
qed

section \<open>One recycling step\<close>

lemma recycle_frame:
  "store_contexts (recycle nr s e) = store_contexts s"
  "store_parent_contexts (recycle nr s e) = store_parent_contexts s"
  "store_now (recycle nr s e) = store_now s"
  by (simp_all add: recycle_def Let_def register_execution_def publish_cached_execution_def
        split: prod.splits)

lemma execution_id_key:
  assumes "well_formed_store s" "x \<in> set (store_executions s)" "y \<in> set (store_executions s)"
    and "execution_id (stored x) = execution_id (stored y)"
  shows "x = y"
proof -
  have "inj_on (\<lambda>x. execution_id (stored x)) (set (store_executions s))"
    using assms(1) by (simp add: well_formed_store_def distinct_map)
  then show ?thesis using assms(2-4) by (auto dest: inj_onD)
qed

lemma context_id_key:
  assumes "well_formed_store s" "c \<in> set (store_contexts s)" "c' \<in> set (store_contexts s)"
    and "context_id c = context_id c'"
  shows "c = c'"
proof -
  have "inj_on context_id (set (store_contexts s))"
    using assms(1) by (simp add: well_formed_store_def distinct_map)
  then show ?thesis using assms(2-4) by (auto dest: inj_onD)
qed

lemma publish_one_associated:
  assumes "associated_with_all cc x"
  shows "associated_context_ids (publish_one cc out x) = associated_context_ids x"
proof -
  have "filter (\<lambda>k. k \<notin> set (associated_context_ids x)) (map context_id cc) = []"
    using assms by (auto simp: associated_with_all_def filter_empty_conv)
  then show ?thesis by (simp add: publish_one_def)
qed

lemma publish_one_fields:
  "execution_id (stored (publish_one cc out x)) = execution_id (stored x)"
  "last_known_state (stored (publish_one cc out x)) = Execution_CACHED"
  by (simp_all add: publish_one_def)

text \<open>The three branches of \<^verbatim>\<open>_cache_and_publish\<close>, as changes of the list of executions.\<close>

lemma recycle_cases:
  assumes wf: "well_formed_store s"
    and cc: "cc = recycled_contexts nr s (execution_id e)"
    and prev: "prev = filter (associated_with_all cc) (store_executions s)"
  shows "(prev \<noteq> [] \<and> last_known_state (stored (last prev)) = Execution_CACHED \<and>
          recycle nr s e = s) \<or>
         (\<exists>y. prev = [] \<and>
              recycle nr s e = s\<lparr>store_executions := store_executions s @ [y]\<rparr> \<and>
              execution_id (stored y) = fresh_execution_id s \<and>
              last_known_state (stored y) = Execution_CACHED \<and>
              set (associated_context_ids y) = context_id ` set cc) \<or>
         (\<exists>y. prev \<noteq> [] \<and> last_known_state (stored (last prev)) \<noteq> Execution_CACHED \<and>
              recycle nr s e
                = s\<lparr>store_executions :=
                      map (\<lambda>x. if x = last prev then y else x) (store_executions s)\<rparr> \<and>
              execution_id (stored y) = execution_id (stored (last prev)) \<and>
              associated_context_ids y = associated_context_ids (last prev) \<and>
              last_known_state (stored y) = Execution_CACHED)"
proof -
  have q: "get_executions_associated_with_all_contexts s cc = map stored prev"
    by (simp add: get_executions_associated_with_all_contexts_def prev)
  show ?thesis
  proof (cases "prev = []")
    case True
    define out where "out = get_artifacts_dict
        (snd (register_execution s (execution_type_id e) cc)) (execution_id e)"
    define n0 where "n0 = \<lparr>stored = \<lparr>execution_id = fresh_execution_id s,
           execution_type_id = execution_type_id e, last_known_state = Execution_ACTIVE,
           custom_properties = []\<rparr>,
         associated_context_ids = map context_id cc, output_events = []\<rparr>"
    define y where "y = publish_one cc out n0"
    have reg: "register_execution s (execution_type_id e) cc
                 = (stored n0, s\<lparr>store_executions := store_executions s @ [n0]\<rparr>)"
      by (simp add: register_execution_def n0_def Let_def)
    have old: "map (\<lambda>x. if execution_id (stored x) = fresh_execution_id s
                         then publish_one cc out' x else x) (store_executions s)
               = store_executions s" for out'
    proof -
      have "\<forall>x\<in>set (store_executions s). execution_id (stored x) \<noteq> fresh_execution_id s"
        using fresh_execution_id_gt[of _ s] by force
      then show ?thesis by (simp add: map_idI)
    qed
    have r: "recycle nr s e = s\<lparr>store_executions := store_executions s @ [y]\<rparr>"
      using True old
      by (simp add: recycle_def Let_def cc[symmetric] q reg publish_cached_execution_def
            out_def y_def n0_def)
    have "set (associated_context_ids y) = context_id ` set cc"
      by (auto simp: y_def publish_one_def n0_def)
    moreover have "execution_id (stored y) = fresh_execution_id s"
      by (simp add: y_def publish_one_def n0_def)
    moreover have "last_known_state (stored y) = Execution_CACHED"
      by (simp add: y_def publish_one_def)
    ultimately show ?thesis using True r by blast
  next
    case False
    then have lst: "last (map stored prev) = stored (last prev)" by (simp add: last_map)
    have ne: "map stored prev \<noteq> []" using False by simp
    show ?thesis
    proof (cases "last_known_state (stored (last prev)) = Execution_CACHED")
      case True
      have "recycle nr s e = s"
        using ne True by (simp add: recycle_def Let_def cc[symmetric] q lst)
      then show ?thesis using False True by blast
    next
      case nc: False
      define out where "out = get_artifacts_dict s (execution_id e)"
      define y where "y = publish_one cc out (last prev)"
      have mem: "last prev \<in> set prev" using False by simp
      then have inX: "last prev \<in> set (store_executions s)"
        and ass: "associated_with_all cc (last prev)"
        by (auto simp: prev)
      have eq: "map (\<lambda>x. if execution_id (stored x) = execution_id (stored (last prev))
                         then publish_one cc out x else x) (store_executions s)
               = map (\<lambda>x. if x = last prev then y else x) (store_executions s)"
      proof (rule map_cong[OF refl])
        fix x assume x: "x \<in> set (store_executions s)"
        show "(if execution_id (stored x) = execution_id (stored (last prev))
               then publish_one cc out x else x) = (if x = last prev then y else x)"
          using execution_id_key[OF wf x inX] by (auto simp: y_def)
      qed
      have r: "recycle nr s e
                = s\<lparr>store_executions :=
                      map (\<lambda>x. if x = last prev then y else x) (store_executions s)\<rparr>"
      proof -
        have "recycle nr s e
                = publish_cached_execution s cc (execution_id (stored (last prev))) out"
          using ne nc by (simp add: recycle_def Let_def cc[symmetric] q lst out_def)
        then show ?thesis unfolding publish_cached_execution_def eq .
      qed
      have "execution_id (stored y) = execution_id (stored (last prev))"
        "last_known_state (stored y) = Execution_CACHED"
        by (simp_all add: y_def publish_one_fields)
      moreover have "associated_context_ids y = associated_context_ids (last prev)"
        unfolding y_def by (rule publish_one_associated[OF ass])
      ultimately show ?thesis using False nc r by blast
    qed
  qed
qed

lemma contexts_by_execution_mem:
  "c \<in> set (get_contexts_by_execution s eid) \<longleftrightarrow>
     c \<in> set (store_contexts s) \<and>
     (\<exists>x\<in>set (store_executions s).
        execution_id (stored x) = eid \<and> context_id c \<in> set (associated_context_ids x))"
  by (auto simp: get_contexts_by_execution_def)

lemma recycled_contexts_subset:
  assumes "nr \<in> set (store_contexts s)"
  shows "set (recycled_contexts nr s eid) \<subseteq> set (store_contexts s)"
  using assms by (auto simp: recycled_contexts_def replace_run_context_def contexts_by_execution_mem)

lemma recycled_other_context:
  assumes wf: "well_formed_store s" and nr: "nr \<in> set (store_contexts s)"
    and ty: "context_type nr = PIPELINE_RUN_CONTEXT_TYPE_NAME"
    and c: "c \<in> set (store_contexts s)" "context_type c \<noteq> PIPELINE_RUN_CONTEXT_TYPE_NAME"
    and k: "context_id c \<in> context_id ` set (recycled_contexts nr s eid)"
  shows "c \<in> set (get_contexts_by_execution s eid)"
proof -
  from k obtain c0 where c0: "c0 \<in> set (get_contexts_by_execution s eid)"
    and e: "context_id c = context_id (replace_run_context nr c0)"
    by (auto simp: recycled_contexts_def)
  have c0C: "c0 \<in> set (store_contexts s)" using c0 by (simp add: contexts_by_execution_mem)
  then have "replace_run_context nr c0 \<in> set (store_contexts s)"
    using nr by (simp add: replace_run_context_def)
  from context_id_key[OF wf c(1) this e] have eq: "c = replace_run_context nr c0" .
  have "context_type c0 \<noteq> PIPELINE_RUN_CONTEXT_TYPE_NAME"
  proof
    assume "context_type c0 = PIPELINE_RUN_CONTEXT_TYPE_NAME"
    then have "c = nr" using eq by (simp add: replace_run_context_def)
    then show False using c(2) ty by simp
  qed
  then have "c = c0" using eq by (simp add: replace_run_context_def)
  then show ?thesis using c0 by simp
qed

text \<open>What one step does to the executions of the store, entry by entry.\<close>

lemma recycle_new_entries:
  assumes wf: "well_formed_store s"
    and x': "x' \<in> set (store_executions (recycle nr s e))"
  shows "x' \<in> set (store_executions s) \<or>
         (\<exists>x\<in>set (store_executions s).
            execution_id (stored x') = execution_id (stored x) \<and>
            associated_context_ids x' = associated_context_ids x \<and>
            last_known_state (stored x') = Execution_CACHED \<and>
            associated_with_all (recycled_contexts nr s (execution_id e)) x) \<or>
         (execution_id (stored x') = fresh_execution_id s \<and>
          last_known_state (stored x') = Execution_CACHED \<and>
          set (associated_context_ids x')
            = context_id ` set (recycled_contexts nr s (execution_id e)))"
proof -
  define cc where "cc = recycled_contexts nr s (execution_id e)"
  define prev where "prev = filter (associated_with_all cc) (store_executions s)"
  note cases = recycle_cases[OF wf cc_def prev_def]
  from cases consider
      (same) "recycle nr s e = s"
    | (register) y where "recycle nr s e = s\<lparr>store_executions := store_executions s @ [y]\<rparr>"
        "execution_id (stored y) = fresh_execution_id s"
        "last_known_state (stored y) = Execution_CACHED"
        "set (associated_context_ids y) = context_id ` set cc"
    | (flip) y where "prev \<noteq> []"
        "recycle nr s e = s\<lparr>store_executions :=
             map (\<lambda>x. if x = last prev then y else x) (store_executions s)\<rparr>"
        "execution_id (stored y) = execution_id (stored (last prev))"
        "associated_context_ids y = associated_context_ids (last prev)"
        "last_known_state (stored y) = Execution_CACHED"
    by blast
  then show ?thesis
  proof cases
    case same
    then show ?thesis using x' by simp
  next
    case (register y)
    then show ?thesis using x' unfolding cc_def by auto
  next
    case (flip y)
    have "last prev \<in> set prev" using flip(1) by simp
    then have L: "last prev \<in> set (store_executions s)" "associated_with_all cc (last prev)"
      by (auto simp: prev_def)
    from x' have "x' \<in> set (store_executions s) \<or> x' = y"
      unfolding flip(2) by auto
    then show ?thesis
    proof
      assume "x' = y"
      then show ?thesis using L flip(3-5) unfolding cc_def by blast
    qed simp
  qed
qed

lemma recycle_old_entries:
  assumes wf: "well_formed_store s"
    and x: "x \<in> set (store_executions s)"
  shows "\<exists>x'\<in>set (store_executions (recycle nr s e)).
           execution_id (stored x') = execution_id (stored x) \<and>
           associated_context_ids x' = associated_context_ids x \<and>
           (x' = x \<or> last_known_state (stored x') = Execution_CACHED)"
proof -
  define cc where "cc = recycled_contexts nr s (execution_id e)"
  define prev where "prev = filter (associated_with_all cc) (store_executions s)"
  note cases = recycle_cases[OF wf cc_def prev_def]
  from cases consider
      (same) "recycle nr s e = s"
    | (register) y where "recycle nr s e = s\<lparr>store_executions := store_executions s @ [y]\<rparr>"
    | (flip) y where
        "recycle nr s e = s\<lparr>store_executions :=
             map (\<lambda>x. if x = last prev then y else x) (store_executions s)\<rparr>"
        "execution_id (stored y) = execution_id (stored (last prev))"
        "associated_context_ids y = associated_context_ids (last prev)"
        "last_known_state (stored y) = Execution_CACHED"
    by blast
  then show ?thesis
  proof cases
    case same
    then show ?thesis using x by auto
  next
    case (register y)
    then show ?thesis using x by auto
  next
    case (flip y)
    show ?thesis
    proof (cases "x = last prev")
      case True
      have "y \<in> set (store_executions (recycle nr s e))"
        unfolding flip(1) using x True by force
      then show ?thesis using flip(2-4) True by blast
    next
      case False
      have "x \<in> set (store_executions (recycle nr s e))"
        unfolding flip(1) using x False by force
      then show ?thesis by blast
    qed
  qed
qed

lemma recycle_well_formed:
  assumes wf: "well_formed_store s" and nr: "nr \<in> set (store_contexts s)"
  shows "well_formed_store (recycle nr s e)"
proof -
  define cc where "cc = recycled_contexts nr s (execution_id e)"
  define prev where "prev = filter (associated_with_all cc) (store_executions s)"
  have d: "distinct (map (\<lambda>x. execution_id (stored x)) (store_executions (recycle nr s e)))"
  proof -
    note cases = recycle_cases[OF wf cc_def prev_def]
    from cases consider
        (same) "recycle nr s e = s"
      | (register) y where "recycle nr s e = s\<lparr>store_executions := store_executions s @ [y]\<rparr>"
          "execution_id (stored y) = fresh_execution_id s"
      | (flip) y where
          "recycle nr s e = s\<lparr>store_executions :=
               map (\<lambda>x. if x = last prev then y else x) (store_executions s)\<rparr>"
          "execution_id (stored y) = execution_id (stored (last prev))"
      by blast
    then show ?thesis
    proof cases
      case same
      then show ?thesis using wf by (simp add: well_formed_store_def)
    next
      case (register y)
      have "fresh_execution_id s \<notin> (\<lambda>x. execution_id (stored x)) ` set (store_executions s)"
        using fresh_execution_id_gt[of _ s] by force
      then show ?thesis using wf register by (simp add: well_formed_store_def)
    next
      case (flip y)
      have m: "map (\<lambda>x. execution_id (stored x))
              (map (\<lambda>x. if x = last prev then y else x) (store_executions s))
            = map (\<lambda>x. execution_id (stored x)) (store_executions s)"
        using flip(2) by (auto simp: comp_def)
      have "store_executions (recycle nr s e)
              = map (\<lambda>x. if x = last prev then y else x) (store_executions s)"
        unfolding flip(1) by simp
      then show ?thesis using wf unfolding m by (simp only: m well_formed_store_def)
    qed
  qed
  have r: "\<forall>x'\<in>set (store_executions (recycle nr s e)). \<forall>k\<in>set (associated_context_ids x').
             k \<in> context_id ` set (store_contexts s)"
  proof (intro ballI)
    fix x' k
    assume x': "x' \<in> set (store_executions (recycle nr s e))"
      and k: "k \<in> set (associated_context_ids x')"
    have old: "\<And>x. x \<in> set (store_executions s) \<Longrightarrow> k \<in> set (associated_context_ids x)
                \<Longrightarrow> k \<in> context_id ` set (store_contexts s)"
      using wf by (auto simp: well_formed_store_def)
    from recycle_new_entries[OF wf x'] show "k \<in> context_id ` set (store_contexts s)"
    proof (elim disjE bexE conjE)
      assume "x' \<in> set (store_executions s)"
      then show ?thesis using old k by blast
    next
      fix x assume "x \<in> set (store_executions s)"
        "associated_context_ids x' = associated_context_ids x"
      then show ?thesis using old k by simp
    next
      assume "set (associated_context_ids x')
                = context_id ` set (recycled_contexts nr s (execution_id e))"
      then show ?thesis using k recycled_contexts_subset[OF nr, of "execution_id e"] by auto
    qed
  qed
  show ?thesis
    unfolding well_formed_store_def recycle_frame using wf d r
    by (simp add: well_formed_store_def)
qed

section \<open>A node without a successful execution\<close>

lemma add_context_has_successful:
  assumes wf: "well_formed_store s" and f: "context_id nr = fresh_context_id s"
  shows "has_successful_execution (s\<lparr>store_contexts := store_contexts s @ [nr]\<rparr>) p k b
           \<longleftrightarrow> has_successful_execution s p k b"
  using fresh_id_not_associated[OF wf] f
  by (auto simp: has_successful_execution_def)

lemma add_context_single_node:
  assumes wf: "well_formed_store s" and f: "context_id nr = fresh_context_id s"
    and sn: "single_node_context s"
  shows "single_node_context (s\<lparr>store_contexts := store_contexts s @ [nr]\<rparr>)"
  using fresh_id_not_associated[OF wf] f sn
  by (auto simp: single_node_context_def)

lemma add_context_recyclable:
  "recyclable s cname eid \<Longrightarrow> recyclable (s\<lparr>store_contexts := store_contexts s @ [nr]\<rparr>) cname eid"
  by (auto simp: recyclable_def)

lemma recycle_recyclable:
  assumes wf: "well_formed_store s" and r: "recyclable s cname eid"
  shows "recyclable (recycle nr s e) cname eid"
proof -
  from r obtain x cn cb where x: "x \<in> set (store_executions s)" "execution_id (stored x) = eid"
    and cn: "cn \<in> set (store_contexts s)" "context_type cn = NODE_CONTEXT_TYPE_NAME"
      "context_name cn = cname" "context_id cn \<in> set (associated_context_ids x)"
    and cb: "cb \<in> set (store_contexts s)" "context_type cb = PIPELINE_RUN_CONTEXT_TYPE_NAME"
      "context_id cb \<in> set (associated_context_ids x)"
    by (auto simp: recyclable_def)
  from recycle_old_entries[OF wf x(1), of nr e]
  obtain x' where x': "x' \<in> set (store_executions (recycle nr s e))"
    "execution_id (stored x') = execution_id (stored x)"
    "associated_context_ids x' = associated_context_ids x"
    by blast
  show ?thesis
    unfolding recyclable_def recycle_frame
    using x' x(2) cn cb by (intro bexI[of _ x'] conjI bexI[of _ cn] bexI[of _ cb]) simp_all
qed

lemma recycle_single_node:
  assumes wf: "well_formed_store s" and nr: "nr \<in> set (store_contexts s)"
    and ty: "context_type nr = PIPELINE_RUN_CONTEXT_TYPE_NAME"
    and sn: "single_node_context s"
  shows "single_node_context (recycle nr s e)"
  unfolding single_node_context_def recycle_frame
proof (intro ballI impI)
  fix x' c c'
  assume x': "x' \<in> set (store_executions (recycle nr s e))"
    and c: "c \<in> set (store_contexts s)" and c': "c' \<in> set (store_contexts s)"
    and h: "context_type c = NODE_CONTEXT_TYPE_NAME \<and> context_type c' = NODE_CONTEXT_TYPE_NAME \<and>
            context_id c \<in> set (associated_context_ids x') \<and>
            context_id c' \<in> set (associated_context_ids x')"
  have old: "\<And>x. x \<in> set (store_executions s) \<Longrightarrow>
               associated_context_ids x' = associated_context_ids x \<Longrightarrow> c = c'"
    using sn c c' h unfolding single_node_context_def by metis
  from recycle_new_entries[OF wf x'] show "c = c'"
  proof (elim disjE bexE conjE)
    assume "x' \<in> set (store_executions s)"
    then show ?thesis using old by blast
  next
    fix x assume "x \<in> set (store_executions s)"
      "associated_context_ids x' = associated_context_ids x"
    then show ?thesis using old by blast
  next
    assume a: "set (associated_context_ids x')
                 = context_id ` set (recycled_contexts nr s (execution_id e))"
    have nrun: "context_type c \<noteq> PIPELINE_RUN_CONTEXT_TYPE_NAME"
      "context_type c' \<noteq> PIPELINE_RUN_CONTEXT_TYPE_NAME"
      using h type_names_differ by auto
    have "c \<in> set (get_contexts_by_execution s (execution_id e))"
      by (rule recycled_other_context[OF wf nr ty c nrun(1)]) (use h a in simp)
    then obtain x1 where x1: "x1 \<in> set (store_executions s)"
      "execution_id (stored x1) = execution_id e"
      "context_id c \<in> set (associated_context_ids x1)"
      by (auto simp: contexts_by_execution_mem)
    have "c' \<in> set (get_contexts_by_execution s (execution_id e))"
      by (rule recycled_other_context[OF wf nr ty c' nrun(2)]) (use h a in simp)
    then obtain x2 where x2: "x2 \<in> set (store_executions s)"
      "execution_id (stored x2) = execution_id e"
      "context_id c' \<in> set (associated_context_ids x2)"
      by (auto simp: contexts_by_execution_mem)
    have "x1 = x2" by (rule execution_id_key[OF wf x1(1) x2(1)]) (simp add: x1(2) x2(2))
    then show ?thesis using sn c c' h x1 x2 unfolding single_node_context_def by metis
  qed
qed

text \<open>
  Recycling an execution of another node leaves the node \<open>k\<close> without a successful
  execution under its triple.
\<close>

lemma recycle_no_successful:
  assumes wf: "well_formed_store s" and nr: "nr \<in> set (store_contexts s)"
    and ty: "context_type nr = PIPELINE_RUN_CONTEXT_TYPE_NAME"
    and sn: "single_node_context s"
    and r: "recyclable s cname (execution_id e)"
    and other: "cname \<noteq> node_context_name p k"
    and no: "\<not> has_successful_execution s p k b"
  shows "\<not> has_successful_execution (recycle nr s e) p k b"
proof
  assume "has_successful_execution (recycle nr s e) p k b"
  then obtain x' cp cn cb where x': "x' \<in> set (store_executions (recycle nr s e))"
      "is_execution_successful (stored x')"
    and cp: "cp \<in> set (store_contexts s)" "context_type cp = PIPELINE_CONTEXT_TYPE_NAME"
      "context_name cp = p" "context_id cp \<in> set (associated_context_ids x')"
    and cn: "cn \<in> set (store_contexts s)" "context_type cn = NODE_CONTEXT_TYPE_NAME"
      "context_name cn = node_context_name p k" "context_id cn \<in> set (associated_context_ids x')"
    and cb: "cb \<in> set (store_contexts s)" "context_type cb = PIPELINE_RUN_CONTEXT_TYPE_NAME"
      "context_name cb = b" "context_id cb \<in> set (associated_context_ids x')"
    unfolding has_successful_execution_def recycle_frame by blast
  from r obtain xe cj where xe: "xe \<in> set (store_executions s)"
      "execution_id (stored xe) = execution_id e"
    and cj: "cj \<in> set (store_contexts s)" "context_type cj = NODE_CONTEXT_TYPE_NAME"
      "context_name cj = cname" "context_id cj \<in> set (associated_context_ids xe)"
    by (auto simp: recyclable_def)
  have ne: "cn \<noteq> cj" using cn(3) cj(3) other by auto
  have one: "\<And>x. x \<in> set (store_executions s) \<Longrightarrow>
               context_id cn \<in> set (associated_context_ids x) \<Longrightarrow>
               context_id cj \<in> set (associated_context_ids x) \<Longrightarrow> False"
    using sn cn(1,2) cj(1,2) ne unfolding single_node_context_def by metis
  have cjin: "cj \<in> set (recycled_contexts nr s (execution_id e))"
  proof -
    have "cj \<in> set (get_contexts_by_execution s (execution_id e))"
      using xe cj by (auto simp: contexts_by_execution_mem)
    moreover have "replace_run_context nr cj = cj"
      using cj(2) type_names_differ by (simp add: replace_run_context_def)
    ultimately show ?thesis by (force simp: recycled_contexts_def)
  qed
  from recycle_new_entries[OF wf x'(1)] show False
  proof (elim disjE bexE conjE)
    assume "x' \<in> set (store_executions s)"
    then have "has_successful_execution s p k b"
      unfolding has_successful_execution_def using x'(2) cp cn cb by blast
    then show False using no by simp
  next
    fix x assume x: "x \<in> set (store_executions s)"
      "associated_context_ids x' = associated_context_ids x"
      "associated_with_all (recycled_contexts nr s (execution_id e)) x"
    have "context_id cj \<in> set (associated_context_ids x)"
      using x(3) cjin by (auto simp: associated_with_all_def)
    then show False using one[OF x(1)] cn(4) x(2) by simp
  next
    assume a: "set (associated_context_ids x')
                 = context_id ` set (recycled_contexts nr s (execution_id e))"
    have "context_type cn \<noteq> PIPELINE_RUN_CONTEXT_TYPE_NAME"
      using cn(2) type_names_differ by auto
    then have "cn \<in> set (get_contexts_by_execution s (execution_id e))"
      by (rule recycled_other_context[OF wf nr ty cn(1)]) (use cn(4) a in simp)
    then obtain x1 where x1: "x1 \<in> set (store_executions s)"
      "execution_id (stored x1) = execution_id e"
      "context_id cn \<in> set (associated_context_ids x1)"
      by (auto simp: contexts_by_execution_mem)
    have "x1 = xe" by (rule execution_id_key[OF wf x1(1) xe(1)]) (simp add: x1(2) xe(2))
    then show False using one[OF xe(1)] x1(3) cj(4) by simp
  qed
qed

lemma recycler_inv_contexts:
  "store_contexts s' = store_contexts s \<Longrightarrow> recycler_inv r s' = recycler_inv r s"
  by (simp add: recycler_inv_def)

text \<open>One call of \<^verbatim>\<open>_cache_and_publish\<close> for an execution of another node.\<close>

lemma cache_and_publish_keeps:
  assumes inv: "recycler_inv r s" and wf: "well_formed_store s"
    and sn: "single_node_context s"
    and r: "recyclable s cname (execution_id e)"
    and other: "cname \<noteq> node_context_name p k"
    and no: "\<not> has_successful_execution s p k b"
    and cp: "cache_and_publish r s e = (r', s')"
  shows "recycler_inv r' s'" "well_formed_store s'" "single_node_context s'"
    "\<not> has_successful_execution s' p k b"
    "store_parent_contexts s' = store_parent_contexts s"
    "recycler_pipeline_name r' = recycler_pipeline_name r"
    "\<forall>cname' eid. recyclable s cname' eid \<longrightarrow> recyclable s' cname' eid"
proof -
  obtain nr r1 s1 where g:
    "get_or_register_pipeline_run_context r s (recycler_new_run_id r) = (nr, r1, s1)"
    by (cases "get_or_register_pipeline_run_context r s (recycler_new_run_id r)")
  note gp = get_or_register_props[OF inv wf g]
  have run: "\<exists>c\<in>set (get_contexts_by_execution s (execution_id e)).
                context_type c = PIPELINE_RUN_CONTEXT_TYPE_NAME"
  proof -
    from r obtain x cb where "x \<in> set (store_executions s)"
      "execution_id (stored x) = execution_id e" "cb \<in> set (store_contexts s)"
      "context_type cb = PIPELINE_RUN_CONTEXT_TYPE_NAME"
      "context_id cb \<in> set (associated_context_ids x)"
      by (auto simp: recyclable_def)
    then have "cb \<in> set (get_contexts_by_execution s (execution_id e))"
      unfolding contexts_by_execution_mem by blast
    then show ?thesis using \<open>context_type cb = PIPELINE_RUN_CONTEXT_TYPE_NAME\<close> by blast
  qed
  have eq: "r' = r1" "s' = recycle nr s1 e"
    using cache_and_publish_recycle[OF inv wf g run] cp by simp_all
  note rf = registered_facts[OF gp(1)]
  have s1: "s1 = s \<or> (context_id nr = fresh_context_id s \<and>
                        s1 = s\<lparr>store_contexts := store_contexts s @ [nr]\<rparr>)"
    using gp(10) by blast
  have sn1: "single_node_context s1"
    using s1 sn add_context_single_node[OF wf _ sn] by auto
  have no1: "\<not> has_successful_execution s1 p k b"
    using s1 no add_context_has_successful[OF wf] by auto
  have rec1: "\<And>cname' eid. recyclable s cname' eid \<Longrightarrow> recyclable s1 cname' eid"
    using s1 add_context_recyclable by auto
  show "recycler_inv r' s'"
    unfolding eq using rf(5) recycler_inv_contexts[of "recycle nr s1 e" s1 r1]
    by (simp add: recycle_frame)
  show "well_formed_store s'" unfolding eq by (rule recycle_well_formed[OF gp(2) rf(1)])
  show "single_node_context s'" unfolding eq by (rule recycle_single_node[OF gp(2) rf(1) rf(2) sn1])
  show "\<not> has_successful_execution s' p k b"
    unfolding eq by (rule recycle_no_successful[OF gp(2) rf(1) rf(2) sn1 rec1[OF r] other no1])
  show "store_parent_contexts s' = store_parent_contexts s"
    unfolding eq by (simp add: recycle_frame gp(4))
  show "recycler_pipeline_name r' = recycler_pipeline_name r" unfolding eq by (rule gp(5))
  show "\<forall>cname' eid. recyclable s cname' eid \<longrightarrow> recyclable s' cname' eid"
    unfolding eq using rec1 recycle_recyclable[OF gp(2)] by blast
qed

lemma cache_and_publish_all_keeps:
  assumes "recycler_inv r s" "well_formed_store s" "single_node_context s"
    and "\<forall>e\<in>set es. recyclable s cname (execution_id e)"
    and "cname \<noteq> node_context_name p k"
    and "\<not> has_successful_execution s p k b"
    and "cache_and_publish_all es r s = (r', s')"
  shows "recycler_inv r' s' \<and> well_formed_store s' \<and> single_node_context s' \<and>
         \<not> has_successful_execution s' p k b \<and>
         store_parent_contexts s' = store_parent_contexts s \<and>
         recycler_pipeline_name r' = recycler_pipeline_name r"
  using assms
proof (induction es arbitrary: r s)
  case Nil
  then show ?case by simp
next
  case (Cons e es)
  obtain r1 s1 where c: "cache_and_publish r s e = (r1, s1)"
    by (cases "cache_and_publish r s e")
  have re: "recyclable s cname (execution_id e)" using Cons.prems(4) by simp
  note k = cache_and_publish_keeps[OF Cons.prems(1-3) re Cons.prems(5,6) c]
  have rest: "cache_and_publish_all es r1 s1 = (r', s')" using Cons.prems(7) c by simp
  have all: "\<forall>e\<in>set es. recyclable s1 cname (execution_id e)"
    using Cons.prems(4) k(7) by simp
  from Cons.IH[OF k(1) k(2) k(3) all Cons.prems(5) k(4) rest] show ?case
    using k(5) k(6) by simp
qed

lemma sort_executions_set:
  "set (sort_executions_newest_to_oldest es) = set es"
  by (simp add: sort_executions_newest_to_oldest_def)

lemma get_node_context_props:
  assumes "get_node_context r s nid = Inr c"
  shows "c \<in> set (store_contexts s)" "context_type c = NODE_CONTEXT_TYPE_NAME"
    "context_name c = node_context_name (recycler_pipeline_name r) nid"
proof -
  have f: "get_context_by_type_and_name s NODE_CONTEXT_TYPE_NAME
             (node_context_name (recycler_pipeline_name r) nid) = Some c"
    using assms by (auto simp: get_node_context_def split: option.splits)
  from find_SomeD[OF f[unfolded get_context_by_type_and_name_def]]
  show "c \<in> set (store_contexts s)" "context_type c = NODE_CONTEXT_TYPE_NAME"
    "context_name c = node_context_name (recycler_pipeline_name r) nid"
    by simp_all
qed

lemma get_pipeline_run_context_props:
  assumes "recycler_inv r s" "get_pipeline_run_context r b = Inr c"
  shows "c \<in> set (store_contexts s)" "context_type c = PIPELINE_RUN_CONTEXT_TYPE_NAME"
    "context_name c = b" "map_of (recycler_pipeline_run_contexts r) b = Some c"
proof -
  show m: "map_of (recycler_pipeline_run_contexts r) b = Some c"
    using assms(2) by (auto simp: get_pipeline_run_context_def split: option.splits)
  show "c \<in> set (store_contexts s)" "context_type c = PIPELINE_RUN_CONTEXT_TYPE_NAME"
    "context_name c = b"
    using assms(1) m by (auto simp: recycler_inv_def)
qed

text \<open>What \<^verbatim>\<open>_get_successful_executions\<close> returns, and that it raises nothing but \<^verbatim>\<open>LookupError\<close>.\<close>

lemma get_successful_executions_cases:
  obtains (no_node) m where "get_successful_executions r s nid b = Inl (LookupError m)"
      "get_node_context r s nid = Inl (LookupError m)"
    | (no_run) m cn where "get_successful_executions r s nid b = Inl (LookupError m)"
      "get_node_context r s nid = Inr cn" "get_pipeline_run_context r b = Inl (LookupError m)"
    | (none) m cn cb where "get_successful_executions r s nid b = Inl (LookupError m)"
      "get_node_context r s nid = Inr cn" "get_pipeline_run_context r b = Inr cb"
      "filter is_execution_successful
         (get_executions_associated_with_all_contexts s [cn, cb, recycler_pipeline_context r]) = []"
    | (found) cn cb where "get_node_context r s nid = Inr cn"
      "get_pipeline_run_context r b = Inr cb"
      "filter is_execution_successful
         (get_executions_associated_with_all_contexts s [cn, cb, recycler_pipeline_context r]) \<noteq> []"
      "get_successful_executions r s nid b
         = Inr (sort_executions_newest_to_oldest
                  (filter is_execution_successful
                     (get_executions_associated_with_all_contexts s
                        [cn, cb, recycler_pipeline_context r])))"
proof (cases "get_node_context r s nid")
  case (Inl e)
  then obtain m where "e = LookupError m"
    by (auto simp: get_node_context_def split: option.splits)
  with Inl show ?thesis using no_node by (simp add: get_successful_executions_def)
next
  case cn: (Inr cn)
  show ?thesis
  proof (cases "get_pipeline_run_context r b")
    case (Inl e)
    then obtain m where "e = LookupError m"
      by (auto simp: get_pipeline_run_context_def split: option.splits)
    with Inl cn show ?thesis using no_run by (simp add: get_successful_executions_def)
  next
    case cb: (Inr cb)
    show ?thesis
    proof (cases "filter is_execution_successful
         (get_executions_associated_with_all_contexts s [cn, cb, recycler_pipeline_context r]) = []")
      case True
      then show ?thesis using cn cb none by (simp add: get_successful_executions_def Let_def)
    next
      case False
      then show ?thesis using cn cb found by (simp add: get_successful_executions_def Let_def)
    qed
  qed
qed

lemma get_successful_executions_error:
  assumes "get_successful_executions r s nid b = Inl e"
  shows "\<exists>m. e = LookupError m"
  using assms by (cases rule: get_successful_executions_cases[of r s nid b]) auto

lemma get_successful_executions_recyclable:
  assumes inv: "recycler_inv r s"
    and g: "get_successful_executions r s nid b = Inr es"
  shows "\<forall>e\<in>set es. recyclable s (node_context_name (recycler_pipeline_name r) nid)
                       (execution_id e)"
proof (cases rule: get_successful_executions_cases[of r s nid b])
  case (found cn cb)
  note n = get_node_context_props[OF found(1)]
  note b = get_pipeline_run_context_props[OF inv found(2)]
  have "es = sort_executions_newest_to_oldest (filter is_execution_successful
              (get_executions_associated_with_all_contexts s
                 [cn, cb, recycler_pipeline_context r]))"
    using g unfolding found(4) by simp
  then have es: "set es = set (filter is_execution_successful
              (get_executions_associated_with_all_contexts s
                 [cn, cb, recycler_pipeline_context r]))"
    by (simp only: sort_executions_set)
  show ?thesis
  proof
    fix e assume "e \<in> set es"
    then obtain x where x: "x \<in> set (store_executions s)" "e = stored x"
      "associated_with_all [cn, cb, recycler_pipeline_context r] x"
      unfolding es by (auto simp: get_executions_associated_with_all_contexts_def)
    have "context_id cn \<in> set (associated_context_ids x)"
      "context_id cb \<in> set (associated_context_ids x)"
      using x(3) by (simp_all add: associated_with_all_def)
    then show "recyclable s (node_context_name (recycler_pipeline_name r) nid) (execution_id e)"
      unfolding recyclable_def using x(1,2) n b(1,2)
      by (intro bexI[of _ x] conjI bexI[of _ cn] bexI[of _ cb]) simp_all
  qed
qed (use g in simp_all)

lemma get_successful_executions_none:
  assumes inv: "recycler_inv r s"
    and no: "\<not> has_successful_execution s (recycler_pipeline_name r) k b"
  shows "\<exists>m. get_successful_executions r s k b = Inl (LookupError m)"
proof (cases rule: get_successful_executions_cases[of r s k b])
  case (found cn cb)
  note n = get_node_context_props[OF found(1)]
  note b = get_pipeline_run_context_props[OF inv found(2)]
  have pc: "recycler_pipeline_context r \<in> set (store_contexts s)"
    "context_type (recycler_pipeline_context r) = PIPELINE_CONTEXT_TYPE_NAME"
    "context_name (recycler_pipeline_context r) = recycler_pipeline_name r"
    using inv by (simp_all add: recycler_inv_def)
  from found(3) obtain x where x: "x \<in> set (store_executions s)"
    "is_execution_successful (stored x)"
    "associated_with_all [cn, cb, recycler_pipeline_context r] x"
    by (auto simp: get_executions_associated_with_all_contexts_def filter_empty_conv)
  have ids: "context_id cn \<in> set (associated_context_ids x)"
    "context_id cb \<in> set (associated_context_ids x)"
    "context_id (recycler_pipeline_context r) \<in> set (associated_context_ids x)"
    using x(3) by (simp_all add: associated_with_all_def)
  have "has_successful_execution s (recycler_pipeline_name r) k b"
    unfolding has_successful_execution_def
    using x(1,2) n b(1-3) pc ids
    by (intro bexI[of _ x] conjI bexI[of _ cn] bexI[of _ cb]
          bexI[of _ "recycler_pipeline_context r"]) simp_all
  then show ?thesis using no by simp
qed blast+

lemma node_context_name_inj:
  "node_context_name p n = node_context_name p k \<Longrightarrow> n = k"
  by (simp add: node_context_name_def)

text \<open>The loop over the nodes to reuse stops at the node without a successful execution.\<close>

lemma reuse_all_nodes_fails:
  assumes "k \<in> set nids" "recycler_inv r s" "well_formed_store s" "single_node_context s"
    and "\<not> has_successful_execution s (recycler_pipeline_name r) k b"
  shows "\<exists>m r' s'. reuse_all_nodes nids b r s = (Inl (LookupError m), r', s') \<and>
                   store_parent_contexts s' = store_parent_contexts s"
  using assms
proof (induction nids arbitrary: r s)
  case Nil
  then show ?case by simp
next
  case (Cons n nids)
  show ?case
  proof (cases "get_successful_executions r s n b")
    case (Inl e)
    then obtain m where "e = LookupError m" using get_successful_executions_error by blast
    with Inl show ?thesis by (simp add: reuse_node_outputs_def)
  next
    case (Inr es)
    have nk: "n \<noteq> k"
      using get_successful_executions_none[OF Cons.prems(2) Cons.prems(5)] Inr by auto
    then have kin: "k \<in> set nids" using Cons.prems(1) by simp
    obtain r1 s1 where c: "cache_and_publish_all es r s = (r1, s1)"
      by (cases "cache_and_publish_all es r s")
    have other: "node_context_name (recycler_pipeline_name r) n
                   \<noteq> node_context_name (recycler_pipeline_name r) k"
      using nk node_context_name_inj by blast
    note k = cache_and_publish_all_keeps[OF Cons.prems(2-4)
               get_successful_executions_recyclable[OF Cons.prems(2) Inr] other Cons.prems(5) c]
    have no1: "\<not> has_successful_execution s1 (recycler_pipeline_name r1) k b" using k by simp
    from Cons.IH[OF kin _ _ _ no1] k
    obtain m r' s' where "reuse_all_nodes nids b r1 s1 = (Inl (LookupError m), r', s')"
      "store_parent_contexts s' = store_parent_contexts s1"
      by blast
    then show ?thesis using Inr c k by (simp add: reuse_node_outputs_def)
  qed
qed

lemma get_latest_pipeline_run_id_error:
  "get_latest_pipeline_run_id r = Inl e \<Longrightarrow> \<exists>m. e = LookupError m"
  by (auto simp: get_latest_pipeline_run_id_def split: option.splits)

lemma ArtifactRecycler_init_error:
  "ArtifactRecycler_init s p v = Inl e \<Longrightarrow> \<exists>m. e = LookupError m"
proof -
  assume a: "ArtifactRecycler_init s p v = Inl e"
  show ?thesis
  proof (cases "get_context_by_type_and_name s PIPELINE_CONTEXT_TYPE_NAME p")
    case None
    then show ?thesis using a unfolding ArtifactRecycler_init_def by auto
  next
    case (Some c)
    then show ?thesis using a unfolding ArtifactRecycler_init_def by simp
  qed
qed

text \<open>
  Claim C10.  Let the store be well formed, with every execution associated with at most
  one node context, let the run ids be accepted and the nodes to reuse computed, and let
  \<open>k\<close> be one of them, a node without a successful execution associated with the pipeline
  context, its node context and the context of the base run (the one given, or the latest
  previous run).  Then \<^verbatim>\<open>reuse_pipeline_run_artifacts\<close> raises \<^verbatim>\<open>LookupError\<close>, in whatever
  order the set of nodes is iterated, and the parent-context edges of the store are as
  they were.
\<close>

theorem reuse_raises_without_successful_execution:
  assumes "well_formed_store s" and "single_node_context s"
    and "get_validated_new_run_id marked_pipeline new_run_id = Inr v"
    and "compute_nodes_to_reuse marked_pipeline = Inr nodes_to_reuse"
    and "k \<in> nodes_to_reuse"
    and "set (set_iteration nodes_to_reuse) = nodes_to_reuse"
    and "\<forall>b. resolved_base_run_id s marked_pipeline base_run_id new_run_id = Inr b \<longrightarrow>
           \<not> has_successful_execution s (pipeline_info_id marked_pipeline) k b"
  shows "\<exists>msg s'. reuse_pipeline_run_artifacts set_iteration s marked_pipeline base_run_id
                     new_run_id = (Inl (LookupError msg), s') \<and>
                   store_parent_contexts s' = store_parent_contexts s"
proof (cases "ArtifactRecycler_init s (pipeline_info_id marked_pipeline) v")
  case (Inl e)
  then obtain m where "e = LookupError m" using ArtifactRecycler_init_error by blast
  then show ?thesis using assms(3,4) Inl by (simp add: reuse_pipeline_run_artifacts_def)
next
  case (Inr r)
  note ri = ArtifactRecycler_init_inv[OF Inr]
  define br where "br = (if \<not> truthy base_run_id then get_latest_pipeline_run_id r
                         else Inr (the base_run_id))"
  have rb: "resolved_base_run_id s marked_pipeline base_run_id new_run_id = br"
    using assms(3) Inr by (simp add: resolved_base_run_id_def br_def)
  have unfold: "reuse_pipeline_run_artifacts set_iteration s marked_pipeline base_run_id new_run_id
     = (case br of
          Inl e \<Rightarrow> (Inl e, s)
        | Inr base \<Rightarrow>
            (case reuse_all_nodes (set_iteration nodes_to_reuse) base r s of
               (Inl e, r1, s1) \<Rightarrow> (Inl e, s1)
             | (Inr _, r1, s1) \<Rightarrow>
                 (case put_parent_context r1 s1 base of (result, r2, s2) \<Rightarrow> (result, s2))))"
    using assms(3,4) Inr by (simp add: reuse_pipeline_run_artifacts_def br_def)
  show ?thesis
  proof (cases br)
    case (Inl e)
    then have "get_latest_pipeline_run_id r = Inl e"
      unfolding br_def by (auto split: if_splits)
    then obtain m where "e = LookupError m" using get_latest_pipeline_run_id_error by blast
    then show ?thesis unfolding unfold using Inl by simp
  next
    case b: (Inr b)
    have no: "\<not> has_successful_execution s (recycler_pipeline_name r) k b"
      using assms(7) rb b ri(2) by simp
    have kin: "k \<in> set (set_iteration nodes_to_reuse)" using assms(5,6) by simp
    from reuse_all_nodes_fails[OF kin ri(1) assms(1,2) no]
    obtain m r' s' where
      "reuse_all_nodes (set_iteration nodes_to_reuse) b r s = (Inl (LookupError m), r', s')"
      "store_parent_contexts s' = store_parent_contexts s"
      by blast
    then show ?thesis unfolding unfold using b by simp
  qed
qed

text \<open>
  The pipeline A \<open>\<rightarrow>\<close> B \<open>\<rightarrow>\<close> C marked to run C only, on the store in which the execution of
  A in \<open>run1\<close> had failed: the nodes to reuse are A and B, B is recycled first, and the
  call ends with \<^verbatim>\<open>LookupError\<close> for A and a store without parent-context edge.
\<close>

theorem reuse_raises_without_successful_execution_witness:
  "compute_nodes_to_reuse abc_marked_last = Inr {''A'', ''B''} \<and>
   example_iteration {''A'', ''B''} = [''B'', ''A''] \<and>
   \<not> has_successful_execution example_store_failed_A ''p'' ''A'' ''run1'' \<and>
   (\<exists>msg s'. reuse_pipeline_run_artifacts example_iteration example_store_failed_A
                abc_marked_last (Some ''run1'') None = (Inl (LookupError msg), s') \<and>
              store_parent_contexts s' = store_parent_contexts example_store_failed_A) \<and>
   fst (reuse_pipeline_run_artifacts example_iteration example_store_failed_A
          abc_marked_last (Some ''run1'') None)
     = Inl (LookupError
         ''No previous successful executions found for node_id A in pipeline_run run1'') \<and>
   map (\<lambda>x. (execution_id (stored x), last_known_state (stored x)))
     (store_executions (snd (reuse_pipeline_run_artifacts example_iteration
        example_store_failed_A abc_marked_last (Some ''run1'') None)))
     = [(10, Execution_FAILED), (11, Execution_SUCCESSFUL), (12, Execution_SUCCESSFUL),
        (13, Execution_CACHED)]"
proof -
  have h1: "well_formed_store example_store_failed_A" by code_simp
  have h2: "single_node_context example_store_failed_A" by code_simp
  have h3: "get_validated_new_run_id abc_marked_last None = Inr ''run2''" by code_simp
  have h4: "compute_nodes_to_reuse abc_marked_last = Inr {''A'', ''B''}" by code_simp
  have h5: "''A'' \<in> {''A'', ''B''}" by simp
  have i: "example_iteration {''A'', ''B''} = [''B'', ''A'']" by code_simp
  have h6: "set (example_iteration {''A'', ''B''}) = {''A'', ''B''}" unfolding i by auto
  have b: "resolved_base_run_id example_store_failed_A abc_marked_last (Some ''run1'') None
             = Inr ''run1''" by code_simp
  have n: "\<not> has_successful_execution example_store_failed_A ''p'' ''A'' ''run1''"
    by code_simp
  have p: "pipeline_info_id abc_marked_last = ''p''" by code_simp
  have h7: "\<forall>b. resolved_base_run_id example_store_failed_A abc_marked_last (Some ''run1'') None
                   = Inr b \<longrightarrow>
                 \<not> has_successful_execution example_store_failed_A
                     (pipeline_info_id abc_marked_last) ''A'' b"
    unfolding b p using n by simp
  note T = reuse_raises_without_successful_execution[where s = example_store_failed_A
      and marked_pipeline = abc_marked_last and new_run_id = None and v = "''run2''"
      and nodes_to_reuse = "{''A'', ''B''}" and k = "''A''"
      and set_iteration = example_iteration and base_run_id = "Some ''run1''",
      OF h1 h2 h3 h4 h5 h6 h7]
  have e: "fst (reuse_pipeline_run_artifacts example_iteration example_store_failed_A
          abc_marked_last (Some ''run1'') None)
     = Inl (LookupError
         ''No previous successful executions found for node_id A in pipeline_run run1'')"
    by code_simp
  have x: "map (\<lambda>x. (execution_id (stored x), last_known_state (stored x)))
     (store_executions (snd (reuse_pipeline_run_artifacts example_iteration
        example_store_failed_A abc_marked_last (Some ''run1'') None)))
     = [(10, Execution_FAILED), (11, Execution_SUCCESSFUL), (12, Execution_SUCCESSFUL),
        (13, Execution_CACHED)]"
    by code_simp
  from h4 i n T e x show ?thesis by (intro conjI)
qed

end
